theory Spec2Isabelle
  imports Complex_Main "HOL-Library.Word" "HOL-Library.AList" "HOL-Library.Code_Target_Nat"
begin

section \<open>Data model of \<open>scripts/get_distance_to_focal_set.py\<close>\<close>

text \<open>
  A FASTA record is its name and its sequence text. Sequence text is ASCII, so one
  character is one byte of the UTF-8 encoding and \<open>len(s)\<close> is the number of bytes.
  The arrays built by \<open>np.frombuffer(..., dtype=np.int8)\<close> hold signed 8-bit values.
\<close>

type_synonym int8 = "8 word"

type_synonym seq_record = "string \<times> string"

datatype error =
  ValueError_lengths      \<comment> \<open>line 79: sequences of different lengths\<close>
| ValueError_broadcast    \<comment> \<open>numpy: a slice write of an array that does not fit the slice\<close>
| ValueError_dimension    \<comment> \<open>scipy: product of matrices whose inner dimensions differ\<close>
| SystemExit              \<comment> \<open>line 183: no valid sequence in the focal alignment\<close>

text \<open>
  The argument of \<open>sparse.csc_matrix((val, (row, col)), shape=...)\<close>: the shape and the
  coordinate triples. A cell that no triple names is 0; scipy adds up the values of
  triples that name the same cell.
\<close>

record csc_matrix =
  shape :: "nat \<times> nat"
  entries :: "(nat \<times> nat \<times> int8) list"

text \<open>The dictionary returned by \<open>calculate_snp_matrix\<close>.\<close>

record snp_dict =
  snps :: csc_matrix
  consensus :: "int8 list"
  names :: "string list"
  filled_positions :: "nat list list"

definition INITIALISATION_LENGTH :: nat where
  "INITIALISATION_LENGTH = 1000000"

section \<open>\<open>sequence_to_int_array\<close>\<close>

text \<open>\<open>str.lower\<close> on an ASCII character.\<close>

definition lower :: "char \<Rightarrow> char" where
  "lower c = (let n = (of_char c :: nat) in if 65 \<le> n \<and> n \<le> 90 then char_of (n + 32) else c)"

definition sequence_to_int_array :: "string \<Rightarrow> int8 \<Rightarrow> bool \<Rightarrow> int8 list" where
  "sequence_to_int_array s fill_value fill_gaps =
     (let seq = map (\<lambda>c. (of_char (lower c) :: int8)) s in
      if fill_gaps
      then map (\<lambda>x. if x \<noteq> 97 \<and> x \<noteq> 99 \<and> x \<noteq> 103 \<and> x \<noteq> 116 then fill_value else x) seq
      else map (\<lambda>x. if x \<noteq> 97 \<and> x \<noteq> 99 \<and> x \<noteq> 103 \<and> x \<noteq> 116 \<and> x \<noteq> 45 then fill_value else x) seq)"

section \<open>\<open>calculate_snp_matrix\<close>\<close>

text \<open>
  The local variables of the loop. The buffers \<open>row\<close>, \<open>col\<close> and \<open>val\<close> are kept as
  the cells written so far, \<open>[0, n_snps)\<close>, together with their common capacity
  \<open>current_length\<close>: the cells beyond \<open>n_snps\<close> are uninitialised (\<open>np.empty\<close>) or zero
  (\<open>resize\<close>) and are cut off by \<open>row[0:right]\<close> before anything reads them. At the end of
  every iteration \<open>n_snps = right\<close>, so \<open>n_snps\<close> also stands for \<open>right\<close> after the loop.
\<close>

record snp_state =
  row :: "nat list"
  col :: "nat list"
  val :: "int8 list"
  r :: nat
  n_snps :: nat
  nseqs :: nat
  seq_names :: "string list"
  filled :: "nat list list"
  current_length :: nat
  cons :: "int8 list option"
  align_length :: nat

definition init_state :: "int8 list option \<Rightarrow> snp_state" where
  "init_state consensus0 =
     \<lparr>row = [], col = [], val = [], r = 0, n_snps = 0, nseqs = 0, seq_names = [],
      filled = [], current_length = INITIALISATION_LENGTH, cons = consensus0,
      align_length = 0\<rparr>"

text \<open>Line 82: \<open>snps = (consensus != s) & (s != fill_value)\<close>, on arrays of one length.\<close>

definition snp_mask :: "int8 list \<Rightarrow> int8 list \<Rightarrow> int8 \<Rightarrow> bool list" where
  "snp_mask consensus0 s fill_value = map2 (\<lambda>c x. c \<noteq> x \<and> x \<noteq> fill_value) consensus0 s"

text \<open>\<open>np.flatnonzero\<close> and \<open>np.where(...)[0]\<close> of a boolean array: the indices that hold True.\<close>

definition flatnonzero :: "bool list \<Rightarrow> nat list" where
  "flatnonzero bs = filter (\<lambda>p. bs ! p) [0..<length bs]"

text \<open>
  The body of the loop for a record that is not ignored (lines 68 to 99). The test
  \<open>right >= current_length/2\<close> is a comparison with a float; it is written here on whole
  numbers as \<open>2 * right \<ge> current_length\<close>. The three slice writes
  \<open>buf[n_snps:right] = ...\<close> fit when \<open>right\<close> is within the capacity; beyond it numpy
  clips the slice and the write of the column indices raises, since the array of indices
  has more cells than the clipped slice. (An array of one index would be broadcast instead,
  but a record with at most one SNP stays within the capacity: the count was within it
  before, and the growth step adds room when half of it is reached.)
\<close>

definition loop_body :: "int8 \<Rightarrow> snp_state \<Rightarrow> string \<Rightarrow> string \<Rightarrow> error + snp_state" where
  "loop_body fill_value st h s =
     (let (align, consensus0) =
            (case cons st of
               None \<Rightarrow> (length s, sequence_to_int_array s fill_value True)
             | Some c \<Rightarrow> (length c, c))
      in if length s \<noteq> align then Inl ValueError_lengths
         else
           let s' = sequence_to_int_array s fill_value True;
               mask = snp_mask consensus0 s' fill_value;
               right = n_snps st + length (filter id mask);
               fp = flatnonzero (map (\<lambda>x. x = fill_value) s');
               cl = (if 2 * right \<ge> current_length st
                     then current_length st + INITIALISATION_LENGTH
                     else current_length st)
           in if right > cl then Inl ValueError_broadcast
              else Inr \<lparr>row = take (n_snps st) (row st) @ replicate (right - n_snps st) (r st),
                        col = take (n_snps st) (col st) @ flatnonzero mask,
                        val = take (n_snps st) (val st) @ map (\<lambda>p. s' ! p) (flatnonzero mask),
                        r = r st + 1,
                        n_snps = right,
                        nseqs = nseqs st + 1,
                        seq_names = seq_names st @ [h],
                        filled = filled st @ [fp],
                        current_length = cl,
                        cons = Some consensus0,
                        align_length = align\<rparr>)"

text \<open>
  The \<open>for\<close> loop over the record iterator. It returns the final state and the records it
  has not taken from the iterator, which the next call reads.
\<close>

fun snp_loop :: "int8 \<Rightarrow> int \<Rightarrow> string list \<Rightarrow> snp_state \<Rightarrow> seq_record list
                   \<Rightarrow> error + (snp_state \<times> seq_record list)" where
  "snp_loop fill_value chunk_size ignore_seqs st [] = Inr (st, [])"
| "snp_loop fill_value chunk_size ignore_seqs st ((h, s) # fastafile) =
     (if h \<in> set ignore_seqs then snp_loop fill_value chunk_size ignore_seqs st fastafile
      else case loop_body fill_value st h s of
             Inl e \<Rightarrow> Inl e
           | Inr st' \<Rightarrow>
               if chunk_size \<noteq> 0 \<and> chunk_size = int (nseqs st') then Inr (st', fastafile)
               else snp_loop fill_value chunk_size ignore_seqs st' fastafile)"

text \<open>
  The function: the loop, then \<open>None\<close> when no record was accepted, else the dictionary
  with the matrix built from the triples in \<open>[0, right)\<close>. Once a record is accepted the
  consensus is set. The second component of the result is what is left in the iterator.
\<close>

definition calculate_snp_matrix ::
  "seq_record list \<Rightarrow> int8 list option \<Rightarrow> int8 \<Rightarrow> int \<Rightarrow> string list option
     \<Rightarrow> error + (snp_dict option \<times> seq_record list)" where
  "calculate_snp_matrix fastafile consensus0 fill_value chunk_size ignore_seqs =
     (let ign = (case ignore_seqs of None \<Rightarrow> [] | Some l \<Rightarrow> l) in
      case snp_loop fill_value chunk_size ign (init_state consensus0) fastafile of
        Inl e \<Rightarrow> Inl e
      | Inr (st, rest) \<Rightarrow>
          if nseqs st = 0 then Inr (None, rest)
          else Inr (Some \<lparr>snps = \<lparr>shape = (nseqs st, align_length st),
                                  entries = zip (take (n_snps st) (row st))
                                              (zip (take (n_snps st) (col st))
                                                   (take (n_snps st) (val st)))\<rparr>,
                          consensus = (case cons st of None \<Rightarrow> [] | Some c \<Rightarrow> c),
                          names = seq_names st,
                          filled_positions = filled st\<rparr>, rest))"

section \<open>\<open>calculate_distance_matrix\<close>\<close>

text \<open>The value of a cell of a sparse matrix.\<close>

definition cell :: "csc_matrix \<Rightarrow> nat \<Rightarrow> nat \<Rightarrow> int8" where
  "cell M i p = sum_list (map (\<lambda>(a, b, v). v) (filter (\<lambda>(a, b, v). a = i \<and> b = p) (entries M)))"

text \<open>\<open>1*(M == x)\<close> and \<open>1*(M > 0)\<close>: the 0/1 indicator matrices. \<open>int8\<close> is signed.\<close>

definition eq_ind :: "csc_matrix \<Rightarrow> int8 \<Rightarrow> nat \<Rightarrow> nat \<Rightarrow> int" where
  "eq_ind M x i p = (if cell M i p = x then 1 else 0)"

definition pos_ind :: "csc_matrix \<Rightarrow> nat \<Rightarrow> nat \<Rightarrow> int" where
  "pos_ind M i p = (if 0 <s cell M i p then 1 else 0)"

text \<open>Entry \<open>(i, j)\<close> of the product \<open>X * Y.transpose()\<close>, and entry \<open>i\<close> of \<open>X.sum(1)\<close>.\<close>

definition mult_transpose :: "nat \<Rightarrow> (nat \<Rightarrow> nat \<Rightarrow> int) \<Rightarrow> (nat \<Rightarrow> nat \<Rightarrow> int) \<Rightarrow> nat \<Rightarrow> nat \<Rightarrow> int" where
  "mult_transpose ncols X Y i j = (\<Sum>p\<leftarrow>[0..<ncols]. X i p * Y j p)"

definition sum1 :: "nat \<Rightarrow> (nat \<Rightarrow> nat \<Rightarrow> int) \<Rightarrow> nat \<Rightarrow> int" where
  "sum1 ncols X i = (\<Sum>p\<leftarrow>[0..<ncols]. X i p)"

text \<open>The intermediate matrices of lines 122 to 149, entry by entry.\<close>

definition same_base :: "csc_matrix \<Rightarrow> csc_matrix \<Rightarrow> nat \<Rightarrow> nat \<Rightarrow> int" where
  "same_base A B i j =
     (let L = snd (shape A) in
        mult_transpose L (eq_ind A 97) (eq_ind B 97) i j
      + mult_transpose L (eq_ind A 99) (eq_ind B 99) i j
      + mult_transpose L (eq_ind A 103) (eq_ind B 103) i j
      + mult_transpose L (eq_ind A 116) (eq_ind B 116) i j)"

definition n_comp :: "csc_matrix \<Rightarrow> csc_matrix \<Rightarrow> nat \<Rightarrow> nat \<Rightarrow> int" where
  "n_comp A B i j = mult_transpose (snd (shape A)) (eq_ind A 110) (eq_ind B 110) i j"

definition temp_total :: "csc_matrix \<Rightarrow> csc_matrix \<Rightarrow> nat \<Rightarrow> nat \<Rightarrow> int" where
  "temp_total A B i j = sum1 (snd (shape A)) (pos_ind A) i + sum1 (snd (shape B)) (pos_ind B) j"

definition total_differences_shared :: "csc_matrix \<Rightarrow> csc_matrix \<Rightarrow> nat \<Rightarrow> nat \<Rightarrow> int" where
  "total_differences_shared A B i j = mult_transpose (snd (shape A)) (pos_ind A) (pos_ind B) i j"

definition n_total :: "csc_matrix \<Rightarrow> csc_matrix \<Rightarrow> nat \<Rightarrow> nat \<Rightarrow> int" where
  "n_total A B i j = sum1 (snd (shape A)) (eq_ind A 110) i + sum1 (snd (shape B)) (eq_ind B 110) j"

definition diff_n :: "csc_matrix \<Rightarrow> csc_matrix \<Rightarrow> nat \<Rightarrow> nat \<Rightarrow> int" where
  "diff_n A B i j = n_total A B i j - 2 * n_comp A B i j"

definition distance_entry :: "csc_matrix \<Rightarrow> csc_matrix \<Rightarrow> nat \<Rightarrow> nat \<Rightarrow> int" where
  "distance_entry A B i j =
     (let d = same_base A B i j + n_comp A B i j
      in temp_total A B i j - total_differences_shared A B i j - d - diff_n A B i j)"

text \<open>
  The function itself: the products need the two matrices to have the same number of
  columns; the result is the dense \<open>n_seqs_A \<times> n_seqs_B\<close> matrix, whose entries are
  whole numbers held as floats. The argument \<open>consensus\<close> is not used.
\<close>

definition calculate_distance_matrix ::
  "csc_matrix \<Rightarrow> csc_matrix \<Rightarrow> int8 list \<Rightarrow> error + int list list" where
  "calculate_distance_matrix sparse_matrix_A sparse_matrix_B consensus0 =
     (let n_seqs_A = fst (shape sparse_matrix_A);
          n_seqs_B = fst (shape sparse_matrix_B)
      in if snd (shape sparse_matrix_A) \<noteq> snd (shape sparse_matrix_B)
         then Inl ValueError_dimension
         else Inr (map (\<lambda>i. map (\<lambda>j. distance_entry sparse_matrix_A sparse_matrix_B i j)
                                 [0..<n_seqs_B]) [0..<n_seqs_A]))"

section \<open>The main program\<close>

text \<open>
  The lines of the output file: the header, and a row \<open>strain, closest strain,
  distance\<close> for a context sequence.
\<close>

datatype out_line = Header | Row string string int

text \<open>
  \<open>np.argmin\<close> of a row: the first index that holds the least value. The row has one
  entry for each focal sequence, and the program stops on line 183 when there is none.
\<close>

fun argmin :: "rat list \<Rightarrow> nat" where
  "argmin [] = 0"
| "argmin [x] = 0"
| "argmin (x # xs) = (let j = argmin xs in if x \<le> xs ! j then 0 else Suc j)"

text \<open>
  The arithmetic of line 207 is float64. A float64 is modelled by the rational it stands
  for, and an operation by the exact result rounded to the nearest float64, ties to the
  even mantissa: \<open>exponent x\<close> is the \<open>e\<close> with \<open>2^e \<le> x < 2^(e+1)\<close>, the float64 numbers
  near \<open>x\<close> are the multiples of \<open>2^(e-52)\<close>, and \<open>rne\<close> rounds to the nearest whole
  number, ties to even. Overflow and subnormal numbers are left out: the quotients here
  are 0 or at least \<open>1/alignment_length\<close>, and the sums are below \<open>2^53\<close>.
\<close>

definition rne :: "rat \<Rightarrow> int" where
  "rne x = (let f = \<lfloor>x\<rfloor>; fr = x - of_int f
            in if fr < 1 / 2 then f else if 1 / 2 < fr then f + 1
               else if even f then f else f + 1)"

fun bit_length :: "nat \<Rightarrow> nat" where
  "bit_length n = (if n = 0 then 0 else Suc (bit_length (n div 2)))"

declare bit_length.simps [simp del]

definition exponent :: "rat \<Rightarrow> int" where
  "exponent x =
     (let (p, q) = quotient_of x;
          e = int (bit_length (nat p)) - int (bit_length (nat q))
      in if 2 powi e \<le> x then e else e - 1)"

definition float64 :: "rat \<Rightarrow> rat" where
  "float64 x =
     (if x = 0 then 0
      else let u = 2 powi (exponent \<bar>x\<bar> - 52) in of_int (rne (x / u)) * u)"

text \<open>
  An entry of \<open>d + mask_count_focal/alignment_length\<close> as line 207 computes it: the
  masked count and the length are whole numbers, their quotient is rounded, and so is
  the sum with the distance, a whole number held as a float.
\<close>

definition float_key :: "nat \<Rightarrow> int \<Rightarrow> nat \<Rightarrow> rat" where
  "float_key alignment_length x m = float64 (of_int x + float64 (of_nat m / of_nat alignment_length))"

text \<open>
  Line 207, \<open>np.argmin(d + mask_count_focal/alignment_length, axis=1)\<close>. For an
  alignment of length 0 numpy divides 0 by 0, every sum is nan, and \<open>argmin\<close> returns
  the first index.
\<close>

definition closest_match :: "int list list \<Rightarrow> nat list \<Rightarrow> nat \<Rightarrow> nat list" where
  "closest_match d mask_count_focal alignment_length =
     map (\<lambda>d_row. if alignment_length = 0 then 0
                    else argmin (map2 (float_key alignment_length) d_row mask_count_focal)) d"

text \<open>
  Lines 202 to 216 for one chunk. \<open>minimal_distance_to_focal_set\<close> is a dictionary:
  a key that comes again keeps its place and takes the new value. \<open>mask_count_context\<close>
  is computed and not used.
\<close>

definition chunk_lines :: "snp_dict \<Rightarrow> snp_dict \<Rightarrow> int list list \<Rightarrow> nat \<Rightarrow> out_line list" where
  "chunk_lines context_seqs_dict focal_seqs_dict d alignment_length =
     (let mask_count_focal = map length (filled_positions focal_seqs_dict);
          mask_count_context = zip (names context_seqs_dict)
                                   (map length (filled_positions context_seqs_dict));
          closest = closest_match d mask_count_focal alignment_length;
          minimal_distance_to_focal_set =
            fold (\<lambda>(context_index, focal_index).
                    AList.update (names context_seqs_dict ! context_index)
                      (d ! context_index ! focal_index, names focal_seqs_dict ! focal_index))
                 (zip [0..<length closest] closest) []
      in map (\<lambda>(seqid, (dist, strain)). Row seqid strain dist) minimal_distance_to_focal_set)"

text \<open>
  The \<open>while True\<close> loop of lines 193 to 218: each pass reads the next chunk from the
  record iterator \<open>seqs\<close> and appends its lines to the output; the loop ends when a
  call finds no record. The result is the lines written and the error that stopped the
  program, if any.
\<close>

function main_loop :: "snp_dict \<Rightarrow> int8 list \<Rightarrow> int \<Rightarrow> seq_record list \<Rightarrow> out_line list
                         \<Rightarrow> out_line list \<times> error option" where
  "main_loop focal_seqs_dict ref chunk_size seqs out =
     (case calculate_snp_matrix seqs (Some ref) 110 chunk_size None of
        Inl e \<Rightarrow> (out, Some e)
      | Inr (None, rest) \<Rightarrow> (out, None)
      | Inr (Some context_seqs_dict, rest) \<Rightarrow>
          (case calculate_distance_matrix (snps context_seqs_dict) (snps focal_seqs_dict)
                  (consensus context_seqs_dict) of
             Inl e \<Rightarrow> (out, Some e)
           | Inr d \<Rightarrow>
               main_loop focal_seqs_dict ref chunk_size rest
                 (out @ chunk_lines context_seqs_dict focal_seqs_dict d (length ref))))"
  by pat_completeness auto
termination
proof (relation "measure (\<lambda>(focal_seqs_dict, ref, chunk_size, seqs, out). length seqs)")
  show "wf (measure (\<lambda>(focal_seqs_dict, ref, chunk_size, seqs, out). length seqs))"
    by simp
next
  fix focal_seqs_dict :: snp_dict and ref :: "int8 list" and chunk_size :: int
    and seqs :: "seq_record list" and out :: "out_line list"
    and x2 x1 rest x2a and d :: "int list list"
  assume call: "calculate_snp_matrix seqs (Some ref) 110 chunk_size None = Inr x2"
    and x2: "(x1, rest) = x2" and x1: "x1 = Some x2a"
  have shorter: "length rest' \<le> length recs \<and> (nseqs st' \<noteq> nseqs st \<longrightarrow> length rest' < length recs)"
    if "snp_loop fill_value chunk ign st recs = Inr (st', rest')"
    for fill_value chunk ign st recs st' rest'
    using that
  proof (induction recs arbitrary: st)
    case Nil
    then show ?case by simp
  next
    case (Cons x recs)
    obtain h s where x: "x = (h, s)" by (cases x)
    show ?case
    proof (cases "h \<in> set ign")
      case True
      with Cons.prems have "snp_loop fill_value chunk ign st recs = Inr (st', rest')"
        by (simp add: x)
      from Cons.IH [OF this] show ?thesis by auto
    next
      case False
      with Cons.prems obtain st1 where body: "loop_body fill_value st h s = Inr st1"
        by (auto simp: x split: sum.splits)
      show ?thesis
      proof (cases "chunk \<noteq> 0 \<and> chunk = int (nseqs st1)")
        case True
        with Cons.prems False body show ?thesis by (simp add: x)
      next
        case brk: False
        with Cons.prems False body
        have "snp_loop fill_value chunk ign st1 recs = Inr (st', rest')"
          by (simp add: x)
        from Cons.IH [OF this] show ?thesis by auto
      qed
    qed
  qed
  from call x2 x1 obtain st where
    "snp_loop 110 chunk_size [] (init_state (Some ref)) seqs = Inr (st, rest)" "nseqs st \<noteq> 0"
    by (auto simp: calculate_snp_matrix_def Let_def split: sum.splits if_splits)
  with shorter [of 110 chunk_size "[]" "init_state (Some ref)" seqs st rest]
  have "length rest < length seqs" by (simp add: init_state_def)
  then show "((focal_seqs_dict, ref, chunk_size, rest, out @ chunk_lines x2a focal_seqs_dict d (length ref)),
              (focal_seqs_dict, ref, chunk_size, seqs, out))
             \<in> measure (\<lambda>(focal_seqs_dict, ref, chunk_size, seqs, out). length seqs)"
    by simp
qed

declare main_loop.simps [simp del]

text \<open>
  The program on the contents of its input files: the reference sequence, the option
  \<open>--ignore-seqs\<close>, the records of the focal alignment and of the alignment, and the
  chunk size. The output file is opened after the focal set has been encoded.
\<close>

definition main :: "string \<Rightarrow> string list option \<Rightarrow> seq_record list \<Rightarrow> seq_record list \<Rightarrow> int
                      \<Rightarrow> out_line list \<times> error option" where
  "main reference ignore_seqs focal_alignment alignment chunk_size =
     (let ref = sequence_to_int_array reference 110 True in
      case calculate_snp_matrix focal_alignment (Some ref) 110 0 ignore_seqs of
        Inl e \<Rightarrow> ([], Some e)
      | Inr (None, rest) \<Rightarrow> ([], Some SystemExit)
      | Inr (Some focal_seqs_dict, rest) \<Rightarrow>
          main_loop focal_seqs_dict ref chunk_size alignment [Header])"

section \<open>What one alignment position adds to a distance\<close>

definition ind :: "bool \<Rightarrow> int" where
  "ind b = (if b then 1 else 0)"

text \<open>
  The terms of line 150 for a single column whose cells are \<open>a\<close> in the row of A and \<open>b\<close>
  in the row of B.
\<close>

definition contrib :: "int8 \<Rightarrow> int8 \<Rightarrow> int" where
  "contrib a b =
     ind (0 <s a) + ind (0 <s b) - ind (0 <s a) * ind (0 <s b)
     - (ind (a = 97) * ind (b = 97) + ind (a = 99) * ind (b = 99)
        + ind (a = 103) * ind (b = 103) + ind (a = 116) * ind (b = 116)
        + ind (a = 110) * ind (b = 110))
     - (ind (a = 110) + ind (b = 110) - 2 * (ind (a = 110) * ind (b = 110)))"

section \<open>Notions used to state the properties\<close>

text \<open>
  The records a call accepts, in order: those whose name is not ignored, and no more
  than \<open>chunk_size\<close> of them when \<open>chunk_size\<close> is positive. Row \<open>i\<close> of the SNP matrix
  belongs to the \<open>i\<close>-th accepted record.
\<close>

definition accepted_records :: "int \<Rightarrow> string list option \<Rightarrow> seq_record list \<Rightarrow> seq_record list" where
  "accepted_records chunk_size ignore_seqs recs =
     (let ok = filter (\<lambda>(h, s). h \<notin> set (case ignore_seqs of None \<Rightarrow> [] | Some l \<Rightarrow> l)) recs
      in if 0 < chunk_size then take (nat chunk_size) ok else ok)"

text \<open>The same from inside the loop, when \<open>n\<close> records have been accepted already.\<close>

definition accepted :: "int \<Rightarrow> string list \<Rightarrow> nat \<Rightarrow> seq_record list \<Rightarrow> seq_record list" where
  "accepted chunk_size ign n recs =
     (let ok = filter (\<lambda>(h, s). h \<notin> set ign) recs
      in if int n < chunk_size then take (nat chunk_size - n) ok else ok)"

text \<open>
  A position of a sequence is masked when its symbol is none of a, c, g, t in either case
  (an unknown base or a gap); \<open>base_at\<close> is the code the encoder gives the symbol. A
  sequence deviates from the reference where its code is not the reference's, and has a
  SNP where it deviates and is not masked.
\<close>

definition base_at :: "string \<Rightarrow> nat \<Rightarrow> int8" where
  "base_at s p = sequence_to_int_array s 110 True ! p"

definition masked_at :: "string \<Rightarrow> nat \<Rightarrow> bool" where
  "masked_at s p \<longleftrightarrow> lower (s ! p) \<notin> {CHR ''a'', CHR ''c'', CHR ''g'', CHR ''t''}"

definition deviates_at :: "int8 list \<Rightarrow> string \<Rightarrow> nat \<Rightarrow> bool" where
  "deviates_at ref s p \<longleftrightarrow> base_at s p \<noteq> ref ! p"

definition snp_at :: "int8 list \<Rightarrow> string \<Rightarrow> nat \<Rightarrow> bool" where
  "snp_at ref s p \<longleftrightarrow> deviates_at ref s p \<and> \<not> masked_at s p"

definition count_positions :: "nat \<Rightarrow> (nat \<Rightarrow> bool) \<Rightarrow> int" where
  "count_positions L P = int (length (filter P [0..<L]))"

text \<open>The buffers hold exactly the triples written so far.\<close>

definition wf_buffers :: "snp_state \<Rightarrow> bool" where
  "wf_buffers st \<longleftrightarrow> length (row st) = n_snps st \<and> length (col st) = n_snps st
                       \<and> length (val st) = n_snps st"

definition triples :: "snp_state \<Rightarrow> (nat \<times> nat \<times> int8) list" where
  "triples st = zip (row st) (zip (col st) (val st))"

text \<open>The columns of a record's SNPs and of its masked positions, and the triples of a row.\<close>

definition snp_cols :: "int8 list \<Rightarrow> int8 \<Rightarrow> string \<Rightarrow> nat list" where
  "snp_cols c fill_value s = flatnonzero (snp_mask c (sequence_to_int_array s fill_value True) fill_value)"

definition masked_cols :: "int8 \<Rightarrow> string \<Rightarrow> nat list" where
  "masked_cols fill_value s = flatnonzero (map (\<lambda>x. x = fill_value) (sequence_to_int_array s fill_value True))"

definition row_triples :: "int8 list \<Rightarrow> int8 \<Rightarrow> nat \<Rightarrow> string \<Rightarrow> (nat \<times> nat \<times> int8) list" where
  "row_triples c fill_value k s =
     map (\<lambda>p. (k, p, sequence_to_int_array s fill_value True ! p)) (snp_cols c fill_value s)"

fun rows_triples :: "int8 list \<Rightarrow> int8 \<Rightarrow> nat \<Rightarrow> seq_record list \<Rightarrow> (nat \<times> nat \<times> int8) list" where
  "rows_triples c fill_value k [] = []"
| "rows_triples c fill_value k ((h, s) # acc) =
     row_triples c fill_value k s @ rows_triples c fill_value (Suc k) acc"

definition at_cell :: "(nat \<times> nat \<times> int8) list \<Rightarrow> nat \<Rightarrow> nat \<Rightarrow> int8" where
  "at_cell ts i p = sum_list (map (\<lambda>(a, b, v). v) (filter (\<lambda>(a, b, v). a = i \<and> b = p) ts))"

text \<open>
  The distance of two sequences as the specification words it: the union of the
  noteworthy positions (a position is noteworthy where the sequence deviates from the
  reference or is masked), minus the positions where both carry the same non-reference
  base, minus the masked positions unique to one side.
\<close>

definition spec_distance :: "int8 list \<Rightarrow> string \<Rightarrow> string \<Rightarrow> int" where
  "spec_distance ref s t =
     (let L = length ref;
          noteworthy = (\<lambda>u p. deviates_at ref u p \<or> masked_at u p)
      in (count_positions L (noteworthy s) + count_positions L (noteworthy t)
            - count_positions L (\<lambda>p. noteworthy s p \<and> noteworthy t p))
         - count_positions L (\<lambda>p. snp_at ref s p \<and> snp_at ref t p \<and> base_at s p = base_at t p)
         - (count_positions L (masked_at s) + count_positions L (masked_at t)
              - 2 * count_positions L (\<lambda>p. masked_at s p \<and> masked_at t p)))"

text \<open>
  The reference a call works with: the consensus it is given or, without one, the first
  accepted record; and the length every record is compared with on line 78.
\<close>

definition established_consensus :: "int8 list option \<Rightarrow> int8 \<Rightarrow> seq_record list \<Rightarrow> int8 list" where
  "established_consensus consensus0 fill_value acc =
     (case consensus0 of Some c \<Rightarrow> c
      | None \<Rightarrow> sequence_to_int_array (snd (hd acc)) fill_value True)"

definition reference_length :: "int8 list option \<Rightarrow> seq_record list \<Rightarrow> nat" where
  "reference_length consensus0 acc =
     (case consensus0 of Some c \<Rightarrow> length c | None \<Rightarrow> length (snd (hd acc)))"

text \<open>
  The invariant of the buffers between two records: the capacity is at least the initial
  one, and fewer than half of the cells are written.
\<close>

definition buffer_inv :: "snp_state \<Rightarrow> bool" where
  "buffer_inv st \<longleftrightarrow> INITIALISATION_LENGTH \<le> current_length st \<and> 2 * n_snps st < current_length st"

text \<open>
  The distance of a context sequence to row \<open>j\<close> of a focal matrix, and the output line
  of a context record on its own: the values a record gets whatever chunk it is read in.
\<close>

definition seq_distance :: "int8 list \<Rightarrow> csc_matrix \<Rightarrow> string \<Rightarrow> nat \<Rightarrow> int" where
  "seq_distance ref B s j =
     (\<Sum>p\<leftarrow>[0..<length ref]. contrib (if snp_at ref s p then base_at s p else 0) (cell B j p))"

definition result_line :: "int8 list \<Rightarrow> snp_dict \<Rightarrow> seq_record \<Rightarrow> out_line" where
  "result_line ref F rec =
     (let d_row = map (seq_distance ref (snps F) (snd rec)) [0..<fst (shape (snps F))];
          j = hd (closest_match [d_row] (map length (filled_positions F)) (length ref))
      in Row (fst rec) (names F ! j) (d_row ! j))"

text \<open>
  The sum \<open>d[i, j] + mask_count_focal[j] / alignment_length\<close> in exact arithmetic, and
  the focal index that line 207 selects for row \<open>i\<close> of \<open>d\<close>.
\<close>

definition exact_key :: "nat \<Rightarrow> int \<Rightarrow> nat \<Rightarrow> rat" where
  "exact_key L x m = of_int x + of_nat m / of_nat L"

definition selected :: "snp_dict \<Rightarrow> int list list \<Rightarrow> nat \<Rightarrow> nat \<Rightarrow> nat" where
  "selected focal d alignment_length i =
     closest_match d (map length (filled_positions focal)) alignment_length ! i"

lemma sum_list_uminus: "(\<Sum>p\<leftarrow>xs. - f p) = - (\<Sum>p\<leftarrow>xs. (f p :: int))"
  by (induction xs) simp_all

lemma distance_entry_sum:
  assumes "snd (shape A) = snd (shape B)"
  shows "distance_entry A B i j = (\<Sum>p\<leftarrow>[0..<snd (shape A)]. contrib (cell A i p) (cell B j p))"
  unfolding distance_entry_def same_base_def n_comp_def temp_total_def
    total_differences_shared_def diff_n_def n_total_def mult_transpose_def sum1_def
    eq_ind_def pos_ind_def contrib_def ind_def Let_def assms[symmetric]
  by (simp add: sum_list_addf sum_list_subtractf sum_list_const_mult sum_list_uminus)

lemma contrib_nonneg: "0 \<le> contrib a b"
  by (auto simp: contrib_def ind_def word_sless_alt)

lemma contrib_commute: "contrib a b = contrib b a"
  by (simp add: contrib_def ind_def)

lemma distance_entry_nonneg:
  "snd (shape A) = snd (shape B) \<Longrightarrow> 0 \<le> distance_entry A B i j"
  by (simp only: distance_entry_sum) (rule sum_list_nonneg, auto simp: contrib_nonneg)

lemma distance_entry_commute:
  "snd (shape A) = snd (shape B) \<Longrightarrow> distance_entry A B i j = distance_entry B A j i"
  using distance_entry_sum [of A B i j] distance_entry_sum [of B A j i]
  by (simp add: contrib_commute)

lemma calculate_distance_matrix_nth:
  assumes "snd (shape A) = snd (shape B)" "i < fst (shape A)" "j < fst (shape B)"
  shows "\<exists>D. calculate_distance_matrix A B c = Inr D \<and> D ! i ! j = distance_entry A B i j"
  using assms by (simp add: calculate_distance_matrix_def)

section \<open>What the encoder returns\<close>

lemma length_flatnonzero: "length (flatnonzero bs) = length (filter id bs)"
proof -
  have "filter id bs = filter id (map ((!) bs) [0..<length bs])"
    by (simp add: map_nth)
  also have "\<dots> = map ((!) bs) (filter (\<lambda>p. bs ! p) [0..<length bs])"
    by (simp add: filter_map comp_def)
  finally show ?thesis by (simp add: flatnonzero_def)
qed

lemma zip_row_col_val:
  "zip (replicate (length ps) k) (zip ps (map f ps)) = map (\<lambda>p. (k, p, f p)) ps"
  by (induction ps) simp_all

lemma loop_body_Some:
  assumes "cons st = Some c" and "wf_buffers st" and "loop_body fill_value st h s = Inr st'"
  shows "length s = length c \<and> cons st' = Some c \<and> wf_buffers st'
       \<and> nseqs st' = Suc (nseqs st) \<and> r st' = Suc (r st)
       \<and> seq_names st' = seq_names st @ [h]
       \<and> filled st' = filled st @ [masked_cols fill_value s]
       \<and> align_length st' = length c
       \<and> triples st' = triples st @ row_triples c fill_value (r st) s"
  using assms
  by (auto simp: loop_body_def Let_def wf_buffers_def triples_def row_triples_def snp_cols_def
        masked_cols_def length_flatnonzero [symmetric] zip_row_col_val
      split: if_splits)

lemma accepted_ignored:
  "h \<in> set ign \<Longrightarrow> accepted chunk_size ign n ((h, s) # recs) = accepted chunk_size ign n recs"
  by (simp add: accepted_def)

lemma accepted_break:
  "h \<notin> set ign \<Longrightarrow> chunk_size = int (Suc n)
     \<Longrightarrow> accepted chunk_size ign n ((h, s) # recs) = [(h, s)]"
  by (simp add: accepted_def nat_add_distrib)

lemma accepted_continue:
  "h \<notin> set ign \<Longrightarrow> chunk_size \<noteq> int (Suc n)
     \<Longrightarrow> accepted chunk_size ign n ((h, s) # recs) = (h, s) # accepted chunk_size ign (Suc n) recs"
  by (auto simp: accepted_def Let_def take_Cons' nat_diff_distrib)

lemma snp_loop_Some:
  assumes "cons st = Some c" and "wf_buffers st"
    and "snp_loop fill_value chunk_size ign st recs = Inr (st', rest)"
  shows "cons st' = Some c \<and> wf_buffers st'
       \<and> nseqs st' = nseqs st + length (accepted chunk_size ign (nseqs st) recs)
       \<and> r st' = r st + length (accepted chunk_size ign (nseqs st) recs)
       \<and> seq_names st' = seq_names st @ map fst (accepted chunk_size ign (nseqs st) recs)
       \<and> filled st' = filled st @ map (\<lambda>(h, s). masked_cols fill_value s) (accepted chunk_size ign (nseqs st) recs)
       \<and> (\<forall>(h, s) \<in> set (accepted chunk_size ign (nseqs st) recs). length s = length c)
       \<and> (accepted chunk_size ign (nseqs st) recs \<noteq> [] \<longrightarrow> align_length st' = length c)
       \<and> (accepted chunk_size ign (nseqs st) recs = [] \<longrightarrow> align_length st' = align_length st)
       \<and> triples st' = triples st @ rows_triples c fill_value (r st) (accepted chunk_size ign (nseqs st) recs)"
  using assms
proof (induction recs arbitrary: st)
  case Nil
  then show ?case by (simp add: accepted_def)
next
  case (Cons x recs)
  obtain h s where x: "x = (h, s)" by (cases x)
  show ?case
  proof (cases "h \<in> set ign")
    case True
    with Cons.prems have "snp_loop fill_value chunk_size ign st recs = Inr (st', rest)"
      by (simp add: x)
    from Cons.IH [OF Cons.prems(1,2) this] show ?thesis
      by (simp add: x accepted_ignored [OF True])
  next
    case False
    with Cons.prems(3) obtain st1 where body: "loop_body fill_value st h s = Inr st1"
      by (auto simp: x split: sum.splits)
    note b = loop_body_Some [OF Cons.prems(1,2) body]
    show ?thesis
    proof (cases "chunk_size \<noteq> 0 \<and> chunk_size = int (nseqs st1)")
      case True
      with Cons.prems(3) False body have "st' = st1" by (simp add: x)
      moreover from True b have "chunk_size = int (Suc (nseqs st))" by simp
      note accepted_break [OF False this]
      ultimately show ?thesis using b by (simp add: x)
    next
      case brk: False
      with Cons.prems(3) False body
      have rec: "snp_loop fill_value chunk_size ign st1 recs = Inr (st', rest)"
        by (simp add: x)
      from brk b have ne: "chunk_size \<noteq> int (Suc (nseqs st))" by auto
      have c1: "cons st1 = Some c" and w1: "wf_buffers st1" using b by simp_all
      note ih = Cons.IH [OF c1 w1 rec]
      show ?thesis using ih b
        by (cases "accepted chunk_size ign (Suc (nseqs st)) recs = []")
           (simp_all add: x accepted_continue [OF False ne])
    qed
  qed
qed

lemma length_sequence_to_int_array [simp]:
  "length (sequence_to_int_array s fill_value fill_gaps) = length s"
  by (simp add: sequence_to_int_array_def Let_def)

lemma filter_eq_distinct:
  "distinct xs \<Longrightarrow> filter (\<lambda>q. q = p) xs = (if p \<in> set xs then [p] else [])"
  by (induction xs) auto

lemma distinct_flatnonzero [simp]: "distinct (flatnonzero bs)"
  by (simp add: flatnonzero_def)

lemma set_flatnonzero: "p \<in> set (flatnonzero bs) \<longleftrightarrow> p < length bs \<and> bs ! p"
  by (auto simp: flatnonzero_def)

lemma set_snp_cols:
  "length s = length c \<Longrightarrow>
   p \<in> set (snp_cols c fill_value s) \<longleftrightarrow>
     p < length c \<and> c ! p \<noteq> sequence_to_int_array s fill_value True ! p
                 \<and> sequence_to_int_array s fill_value True ! p \<noteq> fill_value"
  by (auto simp: snp_cols_def set_flatnonzero snp_mask_def)

lemma cell_at_cell: "cell M i p = at_cell (entries M) i p"
  by (simp add: cell_def at_cell_def)

lemma at_cell_Nil [simp]: "at_cell [] i p = 0"
  by (simp add: at_cell_def)

lemma at_cell_append [simp]: "at_cell (xs @ ys) i p = at_cell xs i p + at_cell ys i p"
  by (simp add: at_cell_def)

lemma at_cell_row:
  "distinct ps \<Longrightarrow> at_cell (map (\<lambda>q. (k, q, f q)) ps) i p = (if i = k \<and> p \<in> set ps then f p else 0)"
  by (induction ps) (auto simp: at_cell_def)

lemma at_cell_row_triples:
  "at_cell (row_triples c fill_value k s) i p =
     (if i = k \<and> p \<in> set (snp_cols c fill_value s)
      then sequence_to_int_array s fill_value True ! p else 0)"
  unfolding row_triples_def by (rule at_cell_row) (simp add: snp_cols_def)

lemma at_cell_rows_triples:
  "at_cell (rows_triples c fill_value k acc) i p =
     (if k \<le> i \<and> i - k < length acc \<and> p \<in> set (snp_cols c fill_value (snd (acc ! (i - k))))
      then sequence_to_int_array (snd (acc ! (i - k))) fill_value True ! p else 0)"
proof (induction acc arbitrary: k)
  case Nil
  then show ?case by simp
next
  case (Cons x acc)
  obtain h s where x: "x = (h, s)" by (cases x)
  show ?case
  proof (cases "i = k")
    case True
    then show ?thesis
      using Cons.IH [of "Suc k"] by (simp add: x at_cell_row_triples)
  next
    case False
    then show ?thesis
      by (auto simp: x at_cell_row_triples Cons.IH Suc_diff_Suc nth_Cons' not_less_eq_eq
               dest: Suc_leD)
  qed
qed

lemma calculate_snp_matrix_Some:
  assumes "calculate_snp_matrix recs (Some c) fill_value chunk_size ignore_seqs = Inr (Some R, rest)"
  shows "shape (snps R) = (length (accepted chunk_size (case ignore_seqs of None \<Rightarrow> [] | Some l \<Rightarrow> l) 0 recs), length c)
       \<and> entries (snps R) = rows_triples c fill_value 0 (accepted chunk_size (case ignore_seqs of None \<Rightarrow> [] | Some l \<Rightarrow> l) 0 recs)
       \<and> consensus R = c
       \<and> names R = map fst (accepted chunk_size (case ignore_seqs of None \<Rightarrow> [] | Some l \<Rightarrow> l) 0 recs)
       \<and> filled_positions R = map (\<lambda>(h, s). masked_cols fill_value s) (accepted chunk_size (case ignore_seqs of None \<Rightarrow> [] | Some l \<Rightarrow> l) 0 recs)
       \<and> (\<forall>(h, s) \<in> set (accepted chunk_size (case ignore_seqs of None \<Rightarrow> [] | Some l \<Rightarrow> l) 0 recs). length s = length c)
       \<and> accepted chunk_size (case ignore_seqs of None \<Rightarrow> [] | Some l \<Rightarrow> l) 0 recs \<noteq> []"
proof -
  let ?ign = "case ignore_seqs of None \<Rightarrow> [] | Some l \<Rightarrow> l"
  let ?st0 = "init_state (Some c)"
  from assms obtain st where
    loop: "snp_loop fill_value chunk_size ?ign ?st0 recs = Inr (st, rest)"
    and n0: "nseqs st \<noteq> 0"
    and R: "R = \<lparr>snps = \<lparr>shape = (nseqs st, align_length st),
                         entries = zip (take (n_snps st) (row st))
                                     (zip (take (n_snps st) (col st)) (take (n_snps st) (val st)))\<rparr>,
                 consensus = (case cons st of None \<Rightarrow> [] | Some c \<Rightarrow> c),
                 names = seq_names st, filled_positions = filled st\<rparr>"
    by (auto simp: calculate_snp_matrix_def Let_def split: sum.splits if_splits)
  have c0: "cons ?st0 = Some c" and w0: "wf_buffers ?st0"
    by (simp_all add: init_state_def wf_buffers_def)
  note ch = snp_loop_Some [OF c0 w0 loop]
  have z: "nseqs ?st0 = 0" "r ?st0 = 0" "seq_names ?st0 = []" "filled ?st0 = []" "triples ?st0 = []"
    by (simp_all add: init_state_def triples_def)
  from ch n0 have ne: "accepted chunk_size ?ign 0 recs \<noteq> []" by (simp add: z)
  from ch have wf: "wf_buffers st" by simp
  then have tr: "zip (take (n_snps st) (row st)) (zip (take (n_snps st) (col st)) (take (n_snps st) (val st))) = triples st"
    by (simp add: wf_buffers_def triples_def)
  show ?thesis
    using ch ne by (simp add: R tr z)
qed

lemma accepted_records_eq:
  "accepted_records chunk_size ignore_seqs recs =
     accepted chunk_size (case ignore_seqs of None \<Rightarrow> [] | Some l \<Rightarrow> l) 0 recs"
  by (simp add: accepted_records_def accepted_def Let_def)

lemma unat_of_char: "unat (of_char c :: 8 word) = of_char c"
proof -
  have "(of_char c :: 8 word) = of_nat (of_char c)"
    by (simp add: of_nat_of_char)
  then have "unat (of_char c :: 8 word) = (of_char c :: nat) mod 256"
    by (simp add: unat_of_nat)
  then show ?thesis by simp
qed

lemma of_char_word8_eq_iff: "(of_char c :: 8 word) = of_char d \<longleftrightarrow> c = d"
proof
  assume "(of_char c :: 8 word) = of_char d"
  then have "unat (of_char c :: 8 word) = unat (of_char d :: 8 word)" by simp
  then have "(of_char c :: nat) = of_char d"
    by (simp add: unat_of_char)
  then show "c = d" by simp
qed simp

lemma of_char_bases:
  "(of_char c :: 8 word) = 97 \<longleftrightarrow> c = CHR ''a''"
  "(of_char c :: 8 word) = 99 \<longleftrightarrow> c = CHR ''c''"
  "(of_char c :: 8 word) = 103 \<longleftrightarrow> c = CHR ''g''"
  "(of_char c :: 8 word) = 116 \<longleftrightarrow> c = CHR ''t''"
  using of_char_word8_eq_iff [of c "CHR ''a''"] of_char_word8_eq_iff [of c "CHR ''c''"]
    of_char_word8_eq_iff [of c "CHR ''g''"] of_char_word8_eq_iff [of c "CHR ''t''"]
  by simp_all

lemma base_at_masked:
  "p < length s \<Longrightarrow> base_at s p = 110 \<longleftrightarrow> masked_at s p"
  by (auto simp: base_at_def masked_at_def sequence_to_int_array_def of_char_bases)

lemma base_at_values:
  "p < length s \<Longrightarrow> \<not> masked_at s p \<Longrightarrow> base_at s p \<in> {97, 99, 103, 116}"
  by (auto simp: base_at_def masked_at_def sequence_to_int_array_def of_char_bases)

lemma encoded_cell:
  assumes enc: "calculate_snp_matrix recs (Some c) 110 chunk_size ignore_seqs = Inr (Some R, rest)"
    and i: "i < length (names R)" and p: "p < length c"
  shows "cell (snps R) i p =
           (if snp_at c (snd (accepted_records chunk_size ignore_seqs recs ! i)) p
            then base_at (snd (accepted_records chunk_size ignore_seqs recs ! i)) p else 0)"
proof -
  let ?acc = "accepted_records chunk_size ignore_seqs recs"
  note ch = calculate_snp_matrix_Some [OF enc, folded accepted_records_eq]
  from ch i have i': "i < length ?acc" by simp
  then have "?acc ! i \<in> set ?acc" by simp
  with ch have len: "length (snd (?acc ! i)) = length c" by (auto simp: split_beta)
  have "cell (snps R) i p = at_cell (rows_triples c 110 0 ?acc) i p"
    using ch by (simp add: cell_at_cell)
  also have "\<dots> = (if p \<in> set (snp_cols c 110 (snd (?acc ! i)))
                    then sequence_to_int_array (snd (?acc ! i)) 110 True ! p else 0)"
    using i' by (simp add: at_cell_rows_triples)
  finally show ?thesis
    using p len base_at_masked [of p "snd (?acc ! i)"]
    by (auto simp: set_snp_cols [OF len] snp_at_def deviates_at_def base_at_def)
qed

lemma contrib_bases:
  assumes "P \<Longrightarrow> x \<in> {97, 99, 103, 116}" and "Q \<Longrightarrow> y \<in> {97, 99, 103, 116}"
  shows "contrib (if P then x else 0) (if Q then y else 0) =
           ind P + ind Q - ind (P \<and> Q) - ind (P \<and> Q \<and> x = y)"
  using assms by (auto simp: contrib_def ind_def word_sless_alt)

lemma sum_list_ind: "(\<Sum>p\<leftarrow>xs. ind (P p)) = int (length (filter P xs))"
  by (induction xs) (simp_all add: ind_def)

section \<open>Distances between encoded sequences\<close>

lemma encoded_shape:
  assumes "calculate_snp_matrix recs (Some c) fill_value chunk_size ignore_seqs = Inr (Some R, rest)"
  shows "shape (snps R) = (length (names R), length c)"
  using calculate_snp_matrix_Some [OF assms] by simp

lemma encoded_cell_not_110:
  assumes enc: "calculate_snp_matrix recs (Some c) 110 chunk_size ignore_seqs = Inr (Some R, rest)"
    and i: "i < length (names R)" and p: "p < length c"
  shows "cell (snps R) i p \<noteq> 110"
proof -
  let ?s = "snd (accepted_records chunk_size ignore_seqs recs ! i)"
  note ch = calculate_snp_matrix_Some [OF enc, folded accepted_records_eq]
  from ch i have "accepted_records chunk_size ignore_seqs recs ! i
                    \<in> set (accepted_records chunk_size ignore_seqs recs)" by simp
  with ch have len: "length ?s = length c" by (auto simp: split_beta)
  show ?thesis
    using base_at_masked [of p ?s] p len
    by (simp add: encoded_cell [OF enc i p] snp_at_def)
qed

lemma sum_list_zero: "(\<And>p. p \<in> set xs \<Longrightarrow> f p = (0::int)) \<Longrightarrow> (\<Sum>p\<leftarrow>xs. f p) = 0"
  by (induction xs) simp_all

lemma encoded_n_terms:
  assumes encA: "calculate_snp_matrix recsA (Some c) 110 chunkA ignoreA = Inr (Some RA, restA)"
    and encB: "calculate_snp_matrix recsB (Some c) 110 chunkB ignoreB = Inr (Some RB, restB)"
    and i: "i < length (names RA)" and j: "j < length (names RB)"
  shows "n_comp (snps RA) (snps RB) i j = 0" and "n_total (snps RA) (snps RB) i j = 0"
    and "diff_n (snps RA) (snps RB) i j = 0"
proof -
  have a: "eq_ind (snps RA) 110 i p = 0" if "p < length c" for p
    using encoded_cell_not_110 [OF encA i that] by (simp add: eq_ind_def)
  have b: "eq_ind (snps RB) 110 j p = 0" if "p < length c" for p
    using encoded_cell_not_110 [OF encB j that] by (simp add: eq_ind_def)
  show nc: "n_comp (snps RA) (snps RB) i j = 0"
    unfolding n_comp_def mult_transpose_def
    by (rule sum_list_zero) (simp add: encoded_shape [OF encA] a)
  have "sum1 (length c) (eq_ind (snps RA) 110) i = 0"
    unfolding sum1_def by (rule sum_list_zero) (simp add: a)
  moreover have "sum1 (length c) (eq_ind (snps RB) 110) j = 0"
    unfolding sum1_def by (rule sum_list_zero) (simp add: b)
  ultimately show nt: "n_total (snps RA) (snps RB) i j = 0"
    by (simp add: n_total_def encoded_shape [OF encA] encoded_shape [OF encB])
  from nc nt show "diff_n (snps RA) (snps RB) i j = 0"
    by (simp add: diff_n_def)
qed

lemma encoded_contrib:
  assumes encA: "calculate_snp_matrix recsA (Some c) 110 chunkA ignoreA = Inr (Some RA, restA)"
    and encB: "calculate_snp_matrix recsB (Some c) 110 chunkB ignoreB = Inr (Some RB, restB)"
    and i: "i < length (names RA)" and j: "j < length (names RB)" and p: "p < length c"
  shows "contrib (cell (snps RA) i p) (cell (snps RB) j p) =
           ind (snp_at c (snd (accepted_records chunkA ignoreA recsA ! i)) p)
         + ind (snp_at c (snd (accepted_records chunkB ignoreB recsB ! j)) p)
         - ind (snp_at c (snd (accepted_records chunkA ignoreA recsA ! i)) p
                \<and> snp_at c (snd (accepted_records chunkB ignoreB recsB ! j)) p)
         - ind (snp_at c (snd (accepted_records chunkA ignoreA recsA ! i)) p
                \<and> snp_at c (snd (accepted_records chunkB ignoreB recsB ! j)) p
                \<and> base_at (snd (accepted_records chunkA ignoreA recsA ! i)) p
                  = base_at (snd (accepted_records chunkB ignoreB recsB ! j)) p)"
proof -
  let ?sA = "snd (accepted_records chunkA ignoreA recsA ! i)"
  let ?sB = "snd (accepted_records chunkB ignoreB recsB ! j)"
  note chA = calculate_snp_matrix_Some [OF encA, folded accepted_records_eq]
  note chB = calculate_snp_matrix_Some [OF encB, folded accepted_records_eq]
  from chA i have "accepted_records chunkA ignoreA recsA ! i
                    \<in> set (accepted_records chunkA ignoreA recsA)" by simp
  with chA have lenA: "length ?sA = length c" by (auto simp: split_beta)
  from chB j have "accepted_records chunkB ignoreB recsB ! j
                    \<in> set (accepted_records chunkB ignoreB recsB)" by simp
  with chB have lenB: "length ?sB = length c" by (auto simp: split_beta)
  have vA: "snp_at c ?sA p \<Longrightarrow> base_at ?sA p \<in> {97, 99, 103, 116}"
    using base_at_values [of p ?sA] p lenA by (simp add: snp_at_def)
  have vB: "snp_at c ?sB p \<Longrightarrow> base_at ?sB p \<in> {97, 99, 103, 116}"
    using base_at_values [of p ?sB] p lenB by (simp add: snp_at_def)
  show ?thesis
    unfolding encoded_cell [OF encA i p] encoded_cell [OF encB j p]
    by (rule contrib_bases) (fact vA, fact vB)
qed

lemma encoded_distance_entry:
  assumes encA: "calculate_snp_matrix recsA (Some c) 110 chunkA ignoreA = Inr (Some RA, restA)"
    and encB: "calculate_snp_matrix recsB (Some c) 110 chunkB ignoreB = Inr (Some RB, restB)"
    and i: "i < length (names RA)" and j: "j < length (names RB)"
  shows "distance_entry (snps RA) (snps RB) i j =
           count_positions (length c) (snp_at c (snd (accepted_records chunkA ignoreA recsA ! i)))
         + count_positions (length c) (snp_at c (snd (accepted_records chunkB ignoreB recsB ! j)))
         - count_positions (length c)
             (\<lambda>p. snp_at c (snd (accepted_records chunkA ignoreA recsA ! i)) p
                  \<and> snp_at c (snd (accepted_records chunkB ignoreB recsB ! j)) p)
         - count_positions (length c)
             (\<lambda>p. snp_at c (snd (accepted_records chunkA ignoreA recsA ! i)) p
                  \<and> snp_at c (snd (accepted_records chunkB ignoreB recsB ! j)) p
                  \<and> base_at (snd (accepted_records chunkA ignoreA recsA ! i)) p
                    = base_at (snd (accepted_records chunkB ignoreB recsB ! j)) p)"
proof -
  have sh: "snd (shape (snps RA)) = snd (shape (snps RB))" "snd (shape (snps RA)) = length c"
    by (simp_all add: encoded_shape [OF encA] encoded_shape [OF encB])
  have "distance_entry (snps RA) (snps RB) i j =
          (\<Sum>p\<leftarrow>[0..<length c]. contrib (cell (snps RA) i p) (cell (snps RB) j p))"
    using distance_entry_sum [OF sh(1)] sh(2) by simp
  also have "\<dots> = (\<Sum>p\<leftarrow>[0..<length c].
           ind (snp_at c (snd (accepted_records chunkA ignoreA recsA ! i)) p)
         + ind (snp_at c (snd (accepted_records chunkB ignoreB recsB ! j)) p)
         - ind (snp_at c (snd (accepted_records chunkA ignoreA recsA ! i)) p
                \<and> snp_at c (snd (accepted_records chunkB ignoreB recsB ! j)) p)
         - ind (snp_at c (snd (accepted_records chunkA ignoreA recsA ! i)) p
                \<and> snp_at c (snd (accepted_records chunkB ignoreB recsB ! j)) p
                \<and> base_at (snd (accepted_records chunkA ignoreA recsA ! i)) p
                  = base_at (snd (accepted_records chunkB ignoreB recsB ! j)) p))"
    by (rule arg_cong [where f = sum_list], rule map_cong [OF refl])
       (simp add: encoded_contrib [OF encA encB i j])
  finally show ?thesis
    by (simp add: sum_list_addf sum_list_subtractf sum_list_ind count_positions_def)
qed

lemma n_comp_count:
  "n_comp A B i j = count_positions (snd (shape A)) (\<lambda>p. cell A i p = 110 \<and> cell B j p = 110)"
proof -
  have "eq_ind A 110 i p * eq_ind B 110 j p = ind (cell A i p = 110 \<and> cell B j p = 110)" for p
    by (simp add: eq_ind_def ind_def)
  then show ?thesis
    by (simp add: n_comp_def mult_transpose_def sum_list_ind count_positions_def)
qed

section \<open>Single records, record lengths and the buffers\<close>

lemma snp_mask_self: "snp_mask c c fill_value = map (\<lambda>x. False) c"
  by (simp add: snp_mask_def zip_same_conv_map)

lemma flatnonzero_all_False: "flatnonzero (map (\<lambda>x. False) xs) = []"
  by (simp add: flatnonzero_def)

lemma masked_cols_eq: "masked_cols 110 s = filter (masked_at s) [0..<length s]"
proof -
  have "masked_cols 110 s = filter (\<lambda>p. base_at s p = 110) [0..<length s]"
    unfolding masked_cols_def flatnonzero_def base_at_def
    by (rule filter_cong) simp_all
  also have "\<dots> = filter (masked_at s) [0..<length s]"
    by (rule filter_cong) (simp_all add: base_at_masked)
  finally show ?thesis .
qed

lemma loop_body_self:
  assumes "cons st = None \<or> cons st = Some (sequence_to_int_array s 110 True)"
    and "2 * n_snps st < current_length st"
  shows "loop_body 110 st h s =
           Inr \<lparr>row = take (n_snps st) (row st), col = take (n_snps st) (col st),
                val = take (n_snps st) (val st), r = r st + 1, n_snps = n_snps st,
                nseqs = nseqs st + 1, seq_names = seq_names st @ [h],
                filled = filled st @ [filter (masked_at s) [0..<length s]],
                current_length = current_length st,
                cons = Some (sequence_to_int_array s 110 True), align_length = length s\<rparr>"
  using assms
  by (auto simp: loop_body_def Let_def snp_mask_self flatnonzero_all_False
        masked_cols_eq [unfolded masked_cols_def])

lemma loop_body_errors:
  "loop_body fill_value st h s = Inl e \<Longrightarrow> e = ValueError_lengths \<or> e = ValueError_broadcast"
  by (auto simp: loop_body_def Let_def split: option.splits if_splits)

lemma snp_loop_errors:
  "snp_loop fill_value chunk_size ign st recs = Inl e
     \<Longrightarrow> e = ValueError_lengths \<or> e = ValueError_broadcast"
proof (induction recs arbitrary: st)
  case Nil
  then show ?case by simp
next
  case (Cons x recs)
  obtain h s where x: "x = (h, s)" by (cases x)
  from Cons.prems Cons.IH show ?case
    by (auto simp: x split: if_splits sum.splits dest: loop_body_errors)
qed

lemma loop_body_mismatch:
  "cons st = Some c \<Longrightarrow> length s \<noteq> length c \<Longrightarrow> loop_body fill_value st h s = Inl ValueError_lengths"
  by (simp add: loop_body_def)

lemma loop_body_Inr:
  assumes "loop_body fill_value st h s = Inr st1"
  shows "\<exists>c1. cons st1 = Some c1 \<and> length c1 = length s \<and> nseqs st1 = Suc (nseqs st)
            \<and> (\<forall>c. cons st = Some c \<longrightarrow> c1 = c)"
  using assms
  by (auto simp: loop_body_def Let_def split: option.splits if_splits)

lemma snp_loop_lengths:
  assumes "snp_loop fill_value chunk_size ign st recs = Inr (st', rest)"
    and "(h, s) \<in> set (accepted chunk_size ign (nseqs st) recs)"
  shows "length s = reference_length (cons st) (accepted chunk_size ign (nseqs st) recs)"
  using assms
proof (induction recs arbitrary: st)
  case Nil
  then show ?case by (simp add: accepted_def)
next
  case (Cons x recs)
  obtain h' s' where x: "x = (h', s')" by (cases x)
  show ?case
  proof (cases "h' \<in> set ign")
    case True
    with Cons.prems have "snp_loop fill_value chunk_size ign st recs = Inr (st', rest)"
      by (simp add: x)
    from Cons.IH [OF this] Cons.prems(2) show ?thesis
      by (simp add: x accepted_ignored [OF True])
  next
    case False
    with Cons.prems(1) obtain st1 where body: "loop_body fill_value st h' s' = Inr st1"
      by (auto simp: x split: sum.splits)
    from loop_body_Inr [OF body] obtain c1 where c1: "cons st1 = Some c1" "length c1 = length s'"
      "nseqs st1 = Suc (nseqs st)" "\<forall>c. cons st = Some c \<longrightarrow> c1 = c" by blast
    show ?thesis
    proof (cases "chunk_size \<noteq> 0 \<and> chunk_size = int (nseqs st1)")
      case True
      with c1 have "chunk_size = int (Suc (nseqs st))" by simp
      note ab = accepted_break [OF False this]
      with Cons.prems(2) have "(h, s) = (h', s')" by (simp add: x)
      with c1 show ?thesis
        by (auto simp: x ab reference_length_def split: option.splits)
    next
      case brk: False
      with Cons.prems(1) False body
      have rec: "snp_loop fill_value chunk_size ign st1 recs = Inr (st', rest)"
        by (simp add: x)
      from brk c1 have ne: "chunk_size \<noteq> int (Suc (nseqs st))" by auto
      note ac = accepted_continue [OF False ne]
      have ref: "reference_length (cons st) (accepted chunk_size ign (nseqs st) (x # recs)) = length s'"
        using c1 by (auto simp: x ac reference_length_def split: option.splits)
      show ?thesis
      proof (cases "(h, s) = (h', s')")
        case True
        with ref show ?thesis by simp
      next
        case False
        with Cons.prems(2) have "(h, s) \<in> set (accepted chunk_size ign (nseqs st1) recs)"
          by (auto simp: x ac c1)
        from Cons.IH [OF rec this] c1 ref show ?thesis
          by (simp add: reference_length_def)
      qed
    qed
  qed
qed

lemma length_snp_cols_le: "length (snp_cols c fill_value s) \<le> length c"
  by (simp add: snp_cols_def length_flatnonzero snp_mask_def le_trans [OF length_filter_le])

lemma snp_cols_self: "snp_cols (sequence_to_int_array s fill_value True) fill_value s = []"
  by (simp add: snp_cols_def snp_mask_self flatnonzero_all_False)

lemma loop_body_no_overflow:
  assumes inv: "buffer_inv st"
    and est: "cons st = Some c \<or> cons st = None \<and> c = sequence_to_int_array s fill_value True"
    and cnt: "length (snp_cols c fill_value s) \<le> INITIALISATION_LENGTH div 2"
  shows "loop_body fill_value st h s \<noteq> Inl ValueError_broadcast
       \<and> (\<forall>st1. loop_body fill_value st h s = Inr st1 \<longrightarrow>
             n_snps st1 \<le> current_length st1 \<and> buffer_inv st1 \<and> cons st1 = Some c
             \<and> nseqs st1 = Suc (nseqs st))"
  using assms
  by (auto simp: loop_body_def Let_def buffer_inv_def snp_cols_def length_flatnonzero
        INITIALISATION_LENGTH_def split: if_splits)

lemma snp_loop_no_overflow:
  assumes "buffer_inv st"
    and "\<forall>(h, s) \<in> set (accepted chunk_size ign (nseqs st) recs).
           length (snp_cols (established_consensus (cons st) fill_value (accepted chunk_size ign (nseqs st) recs)) fill_value s)
             \<le> INITIALISATION_LENGTH div 2"
  shows "snp_loop fill_value chunk_size ign st recs \<noteq> Inl ValueError_broadcast
       \<and> (\<forall>st' rest. snp_loop fill_value chunk_size ign st recs = Inr (st', rest) \<longrightarrow> buffer_inv st')"
  using assms
proof (induction recs arbitrary: st)
  case Nil
  then show ?case by simp
next
  case (Cons x recs)
  obtain h s where x: "x = (h, s)" by (cases x)
  show ?case
  proof (cases "h \<in> set ign")
    case True
    from Cons.IH [OF Cons.prems(1)] Cons.prems(2) show ?thesis
      by (simp add: x True accepted_ignored [OF True])
  next
    case False
    let ?acc = "accepted chunk_size ign (nseqs st) (x # recs)"
    let ?c = "established_consensus (cons st) fill_value ?acc"
    have hd: "hd ?acc = (h, s)" and mem: "(h, s) \<in> set ?acc"
      using accepted_break [OF False, of chunk_size "nseqs st" s recs]
        accepted_continue [OF False, of chunk_size "nseqs st" s recs]
      by (cases "chunk_size = int (Suc (nseqs st))"; simp add: x)+
    have est: "cons st = Some ?c \<or> cons st = None \<and> ?c = sequence_to_int_array s fill_value True"
      by (cases "cons st") (simp_all add: established_consensus_def hd)
    from Cons.prems(2) mem have cnt: "length (snp_cols ?c fill_value s) \<le> INITIALISATION_LENGTH div 2"
      by auto
    note b = loop_body_no_overflow [OF Cons.prems(1) est cnt, of h]
    show ?thesis
    proof (cases "loop_body fill_value st h s")
      case (Inl e)
      with b show ?thesis by (auto simp: x False)
    next
      case (Inr st1)
      with b have st1: "buffer_inv st1" "cons st1 = Some ?c" "nseqs st1 = Suc (nseqs st)"
        by simp_all
      show ?thesis
      proof (cases "chunk_size \<noteq> 0 \<and> chunk_size = int (nseqs st1)")
        case True
        with Inr st1 show ?thesis by (simp add: x False)
      next
        case brk: False
        with st1 have ne: "chunk_size \<noteq> int (Suc (nseqs st))" by auto
        note ac = accepted_continue [OF False ne, of s recs]
        have "\<forall>(h, s) \<in> set (accepted chunk_size ign (nseqs st1) recs).
           length (snp_cols (established_consensus (cons st1) fill_value (accepted chunk_size ign (nseqs st1) recs)) fill_value s)
             \<le> INITIALISATION_LENGTH div 2"
          using Cons.prems(2) by (auto simp: x ac st1 established_consensus_def split: option.splits)
        from Cons.IH [OF st1(1) this] Inr brk show ?thesis
          by (auto simp: x False)
      qed
    qed
  qed
qed

section \<open>Selection of the closest match\<close>

lemma argmin_least:
  "xs \<noteq> [] \<Longrightarrow> argmin xs < length xs \<and> (\<forall>k < length xs. xs ! argmin xs \<le> xs ! k)"
proof (induction xs rule: argmin.induct)
  case 1
  then show ?case by simp
next
  case (2 x)
  then show ?case by simp
next
  case (3 x y ys)
  let ?j = "argmin (y # ys)"
  from 3 have ih: "?j < length (y # ys)" "\<forall>k < length (y # ys). (y # ys) ! ?j \<le> (y # ys) ! k"
    by simp_all
  show ?case
  proof (cases "x \<le> (y # ys) ! ?j")
    case True
    have "\<forall>k < length (x # y # ys). x \<le> (x # y # ys) ! k"
    proof (intro allI impI)
      fix k assume k: "k < length (x # y # ys)"
      show "x \<le> (x # y # ys) ! k"
      proof (cases k)
        case 0
        then show ?thesis by simp
      next
        case (Suc k')
        with k ih(2) have "(y # ys) ! ?j \<le> (y # ys) ! k'" by simp
        with True Suc show ?thesis by simp
      qed
    qed
    with True show ?thesis by (simp add: Let_def)
  next
    case False
    have "\<forall>k < length (x # y # ys). (y # ys) ! ?j \<le> (x # y # ys) ! k"
    proof (intro allI impI)
      fix k assume k: "k < length (x # y # ys)"
      show "(y # ys) ! ?j \<le> (x # y # ys) ! k"
      proof (cases k)
        case 0
        with False show ?thesis by simp
      next
        case (Suc k')
        with k ih(2) show ?thesis by simp
      qed
    qed
    with False ih(1) show ?thesis by (simp add: Let_def)
  qed
qed

lemma chunk_lines_context_masks:
  "chunk_lines (ctx\<lparr>filled_positions := fp\<rparr>) focal d L = chunk_lines ctx focal d L"
  by (simp add: chunk_lines_def)

section \<open>Long alignments and the single growth step\<close>

lemma loop_body_fits:
  assumes "cons st = Some c" and "length s = length c"
    and "n_snps st + length (snp_cols c fill_value s)
           \<le> (if current_length st \<le> 2 * (n_snps st + length (snp_cols c fill_value s))
               then current_length st + INITIALISATION_LENGTH else current_length st)"
  shows "\<exists>st1. loop_body fill_value st h s = Inr st1
            \<and> n_snps st1 = n_snps st + length (snp_cols c fill_value s)
            \<and> current_length st1 =
                (if current_length st \<le> 2 * (n_snps st + length (snp_cols c fill_value s))
                 then current_length st + INITIALISATION_LENGTH else current_length st)
            \<and> cons st1 = Some c \<and> nseqs st1 = Suc (nseqs st)"
  using assms
  by (auto simp: loop_body_def Let_def snp_cols_def length_flatnonzero)

lemma loop_body_overflows:
  assumes "cons st = Some c" and "length s = length c"
    and "(if current_length st \<le> 2 * (n_snps st + length (snp_cols c fill_value s))
          then current_length st + INITIALISATION_LENGTH else current_length st)
           < n_snps st + length (snp_cols c fill_value s)"
  shows "loop_body fill_value st h s = Inl ValueError_broadcast"
  using assms
  by (auto simp: loop_body_def Let_def snp_cols_def length_flatnonzero)

lemma lower_a_c: "lower (CHR ''a'') = CHR ''a''" "lower (CHR ''c'') = CHR ''c''"
  by (simp_all add: lower_def)

lemma sequence_to_int_array_replicate:
  "sequence_to_int_array (replicate n (CHR ''a'')) 110 True = replicate n 97"
  "sequence_to_int_array (replicate n (CHR ''c'')) 110 True = replicate n 99"
  by (simp_all add: sequence_to_int_array_def lower_a_c)

lemma snp_cols_all:
  "length (snp_cols (replicate n 97) 110 (replicate n (CHR ''c''))) = n"
  by (simp add: snp_cols_def sequence_to_int_array_replicate snp_mask_def zip_replicate
        length_flatnonzero)

lemma count_positions_all: "(\<And>p. p < L \<Longrightarrow> P p) \<Longrightarrow> count_positions L P = int L"
  by (simp add: count_positions_def)

lemma count_positions_none: "(\<And>p. p < L \<Longrightarrow> \<not> P p) \<Longrightarrow> count_positions L P = 0"
  by (simp add: count_positions_def)

lemma snp_at_replicate:
  "p < n \<Longrightarrow> snp_at (replicate n 97) (replicate n (CHR ''c'')) p"
  "p < n \<Longrightarrow> \<not> snp_at (replicate n 97) (replicate n (CHR ''a'')) p"
  "p < n \<Longrightarrow> \<not> masked_at (replicate n (CHR ''a'')) p"
  by (simp_all add: snp_at_def deviates_at_def base_at_def masked_at_def
        sequence_to_int_array_replicate lower_a_c)

lemma focal_all_reference:
  "calculate_snp_matrix [(f, replicate n (CHR ''a''))] (Some (replicate n 97)) 110 0 None =
     Inr (Some \<lparr>snps = \<lparr>shape = (1, n), entries = []\<rparr>, consensus = replicate n 97,
                names = [f], filled_positions = [[]]\<rparr>, [])"
proof -
  have "filter (masked_at (replicate n (CHR ''a''))) [0..<n] = []"
    by (simp add: snp_at_replicate(3))
  then show ?thesis
    using loop_body_self [where s = "replicate n (CHR ''a'')" and st = "init_state (Some (replicate n 97))"]
    by (simp add: calculate_snp_matrix_def init_state_def INITIALISATION_LENGTH_def
          sequence_to_int_array_replicate)
qed

lemma two_records_overflow:
  assumes "1500000 < n" and "n \<le> 2000000"
  shows "calculate_snp_matrix [(x, replicate n (CHR ''c'')), (y, replicate n (CHR ''c''))]
           (Some (replicate n 97)) 110 2 None = Inl ValueError_broadcast"
proof -
  let ?st0 = "init_state (Some (replicate n 97))"
  have "\<exists>st1. loop_body 110 ?st0 x (replicate n (CHR ''c'')) = Inr st1
            \<and> n_snps st1 = n_snps ?st0 + length (snp_cols (replicate n 97) 110 (replicate n (CHR ''c'')))
            \<and> current_length st1 =
                (if current_length ?st0 \<le> 2 * (n_snps ?st0 + length (snp_cols (replicate n 97) 110 (replicate n (CHR ''c''))))
                 then current_length ?st0 + INITIALISATION_LENGTH else current_length ?st0)
            \<and> cons st1 = Some (replicate n 97) \<and> nseqs st1 = Suc (nseqs ?st0)"
    using assms
    by (intro loop_body_fits) (simp_all add: init_state_def snp_cols_all INITIALISATION_LENGTH_def)
  then obtain st1 where st1: "loop_body 110 ?st0 x (replicate n (CHR ''c'')) = Inr st1"
    "n_snps st1 = n" "current_length st1 = 2000000" "cons st1 = Some (replicate n 97)"
    "nseqs st1 = 1"
    using assms by (auto simp: init_state_def snp_cols_all INITIALISATION_LENGTH_def)
  have "loop_body 110 st1 y (replicate n (CHR ''c'')) = Inl ValueError_broadcast"
    using assms
    by (intro loop_body_overflows [OF st1(4)]) (simp_all add: st1 snp_cols_all INITIALISATION_LENGTH_def)
  with st1 show ?thesis
    by (simp add: calculate_snp_matrix_def)
qed

lemma one_record_chunk:
  assumes "500000 \<le> n" and "n \<le> 2000000"
  shows "\<exists>X. calculate_snp_matrix ((h, replicate n (CHR ''c'')) # rest) (Some (replicate n 97)) 110 1 None
               = Inr (Some X, rest)
           \<and> names X = [h]
           \<and> calculate_distance_matrix (snps X) \<lparr>shape = (1, n), entries = []\<rparr> (consensus X)
               = Inr [[int n]]"
proof -
  let ?st0 = "init_state (Some (replicate n 97))"
  let ?F = "\<lparr>snps = \<lparr>shape = (1, n), entries = []\<rparr>, consensus = replicate n 97,
                names = [f], filled_positions = [[]]\<rparr>"
  have "\<exists>st1. loop_body 110 ?st0 h (replicate n (CHR ''c'')) = Inr st1
            \<and> n_snps st1 = n_snps ?st0 + length (snp_cols (replicate n 97) 110 (replicate n (CHR ''c'')))
            \<and> current_length st1 =
                (if current_length ?st0 \<le> 2 * (n_snps ?st0 + length (snp_cols (replicate n 97) 110 (replicate n (CHR ''c''))))
                 then current_length ?st0 + INITIALISATION_LENGTH else current_length ?st0)
            \<and> cons st1 = Some (replicate n 97) \<and> nseqs st1 = Suc (nseqs ?st0)"
    using assms
    by (intro loop_body_fits) (simp_all add: init_state_def snp_cols_all INITIALISATION_LENGTH_def)
  then obtain st1 where st1: "loop_body 110 ?st0 h (replicate n (CHR ''c'')) = Inr st1" "nseqs st1 = 1"
    by (auto simp: init_state_def)
  then obtain X where X: "calculate_snp_matrix ((h, replicate n (CHR ''c'')) # rest)
                             (Some (replicate n 97)) 110 1 None = Inr (Some X, rest)"
    by (simp add: calculate_snp_matrix_def)
  note ch = calculate_snp_matrix_Some [OF X, folded accepted_records_eq]
  have acc: "accepted_records 1 None ((h, replicate n (CHR ''c'')) # rest) = [(h, replicate n (CHR ''c''))]"
    by (simp add: accepted_records_def)
  from ch have nm: "names X = [h]" and sh: "shape (snps X) = (1, n)" by (simp_all add: acc)
  note fo = focal_all_reference [of f n]
  have "distance_entry (snps X) (snps ?F) 0 0 = int n"
    using encoded_distance_entry [OF X fo, of 0 0]
    by (simp add: nm acc accepted_records_def count_positions_all count_positions_none
          snp_at_replicate)
  then have "calculate_distance_matrix (snps X) \<lparr>shape = (1, n), entries = []\<rparr> (consensus X)
               = Inr [[int n]]"
    by (simp add: calculate_distance_matrix_def sh)
  with X nm show ?thesis by blast
qed

lemma main_loop_empty:
  "main_loop focal ref chunk_size [] out = (out, None)"
  by (simp add: main_loop.simps [of focal ref chunk_size "[]" out] calculate_snp_matrix_def
        init_state_def)

lemma chunk_lines_single:
  "0 < L \<Longrightarrow> names X = [h] \<Longrightarrow>
   chunk_lines X \<lparr>snps = M, consensus = c, names = [f], filled_positions = [[]]\<rparr> [[v]] L
     = [Row h f v]"
  by (simp add: chunk_lines_def closest_match_def)

lemma main_loop_one_record_chunk:
  assumes "500000 \<le> n" and "n \<le> 2000000"
    and F: "F = \<lparr>snps = \<lparr>shape = (1, n), entries = []\<rparr>, consensus = replicate n 97,
                  names = [f], filled_positions = [[]]\<rparr>"
  shows "main_loop F (replicate n 97) 1 ((h, replicate n (CHR ''c'')) # rest) out
         = main_loop F (replicate n 97) 1 rest (out @ [Row h f (int n)])"
proof -
  from one_record_chunk [OF assms(1,2), of h rest] obtain X where
    X: "calculate_snp_matrix ((h, replicate n (CHR ''c'')) # rest) (Some (replicate n 97)) 110 1 None
          = Inr (Some X, rest)"
    and nm: "names X = [h]"
    and D: "calculate_distance_matrix (snps X) \<lparr>shape = (1, n), entries = []\<rparr> (consensus X)
              = Inr [[int n]]"
    by blast
  from assms have "0 < n" by simp
  from chunk_lines_single [OF this nm]
  have CL: "chunk_lines X F [[int n]] (length (replicate n (97 :: int8))) = [Row h f (int n)]"
    by (simp add: F)
  have D': "calculate_distance_matrix (snps X) (snps F) (consensus X) = Inr [[int n]]"
    using D by (simp add: F)
  have "main_loop F (replicate n 97) 1 ((h, replicate n (CHR ''c'')) # rest) out
          = main_loop F (replicate n 97) 1 rest
              (out @ chunk_lines X F [[int n]] (length (replicate n (97 :: int8))))"
    by (subst main_loop.simps) (simp only: X D' sum.case prod.case option.case)
  then show ?thesis by (simp only: CL)
qed

lemma chunking_diverges:
  assumes "1500000 < n" and "n \<le> 2000000"
  shows "main (replicate n (CHR ''a'')) None [(f, replicate n (CHR ''a''))]
           [(x, replicate n (CHR ''c'')), (y, replicate n (CHR ''c''))] 2
         = ([Header], Some ValueError_broadcast)"
    and "main (replicate n (CHR ''a'')) None [(f, replicate n (CHR ''a''))]
           [(x, replicate n (CHR ''c'')), (y, replicate n (CHR ''c''))] 1
         = ([Header, Row x f (int n), Row y f (int n)], None)"
proof -
  define F where "F = \<lparr>snps = \<lparr>shape = (1, n), entries = []\<rparr>, consensus = replicate n 97,
                        names = [f], filled_positions = [[]]\<rparr>"
  from assms have n: "500000 \<le> n" by simp
  have fo: "calculate_snp_matrix [(f, replicate n (CHR ''a''))] (Some (replicate n 97)) 110 0 None
              = Inr (Some F, [])"
    unfolding F_def by (rule focal_all_reference)
  have m: "main (replicate n (CHR ''a'')) None [(f, replicate n (CHR ''a''))] alignment chunk_size
             = main_loop F (replicate n 97) chunk_size alignment [Header]" for alignment chunk_size
    by (simp only: main_def Let_def sequence_to_int_array_replicate fo sum.case prod.case option.case)
  have "main_loop F (replicate n 97) 2 [(x, replicate n (CHR ''c'')), (y, replicate n (CHR ''c''))] [Header]
          = ([Header], Some ValueError_broadcast)"
    by (subst main_loop.simps) (simp only: two_records_overflow [OF assms] sum.case)
  then show "main (replicate n (CHR ''a'')) None [(f, replicate n (CHR ''a''))]
           [(x, replicate n (CHR ''c'')), (y, replicate n (CHR ''c''))] 2
         = ([Header], Some ValueError_broadcast)"
    by (simp only: m)
  have "main_loop F (replicate n 97) 1 [(x, replicate n (CHR ''c'')), (y, replicate n (CHR ''c''))] [Header]
          = ([Header, Row x f (int n), Row y f (int n)], None)"
    by (simp add: main_loop_one_record_chunk [OF n assms(2) F_def] main_loop_empty)
  then show "main (replicate n (CHR ''a'')) None [(f, replicate n (CHR ''a''))]
           [(x, replicate n (CHR ''c'')), (y, replicate n (CHR ''c''))] 1
         = ([Header, Row x f (int n), Row y f (int n)], None)"
    by (simp only: m)
qed

section \<open>Chunks that fit the buffers\<close>

lemma snp_loop_rest:
  assumes "snp_loop fill_value chunk_size [] st recs = Inr (st', rest)"
  shows "rest = (if int (nseqs st) < chunk_size then drop (nat chunk_size - nseqs st) recs else [])"
  using assms
proof (induction recs arbitrary: st)
  case Nil
  then show ?case by simp
next
  case (Cons x recs)
  obtain h s where x: "x = (h, s)" by (cases x)
  from Cons.prems obtain st1 where body: "loop_body fill_value st h s = Inr st1"
    by (auto simp: x split: sum.splits)
  from loop_body_Inr [OF body] have n1: "nseqs st1 = Suc (nseqs st)" by blast
  show ?case
  proof (cases "chunk_size \<noteq> 0 \<and> chunk_size = int (nseqs st1)")
    case True
    with Cons.prems body have "rest = recs" by (simp add: x)
    with True n1 show ?thesis by (simp add: nat_add_distrib)
  next
    case False
    with Cons.prems body have "snp_loop fill_value chunk_size [] st1 recs = Inr (st', rest)"
      by (simp add: x)
    from Cons.IH [OF this] False n1 show ?thesis
      by (auto simp: drop_Cons' nat_diff_distrib)
  qed
qed

lemma snp_loop_succeeds:
  assumes "buffer_inv st" and "cons st = Some c"
    and "\<forall>(h, s) \<in> set recs. length s = length c
            \<and> length (snp_cols c fill_value s) \<le> INITIALISATION_LENGTH div 2"
  shows "\<exists>st' rest. snp_loop fill_value chunk_size [] st recs = Inr (st', rest)"
  using assms
proof (induction recs arbitrary: st)
  case Nil
  then show ?case by simp
next
  case (Cons x recs)
  obtain h s where x: "x = (h, s)" by (cases x)
  from Cons.prems(3) have len: "length s = length c"
    and cnt: "length (snp_cols c fill_value s) \<le> INITIALISATION_LENGTH div 2"
    by (simp_all add: x)
  from Cons.prems(2) have est: "cons st = Some c \<or> cons st = None \<and> c = sequence_to_int_array s fill_value True"
    by simp
  note b = loop_body_no_overflow [OF Cons.prems(1) est cnt, of h]
  have "loop_body fill_value st h s \<noteq> Inl ValueError_lengths"
    using Cons.prems(2) len by (auto simp: loop_body_def Let_def)
  with b loop_body_errors [of fill_value st h s] obtain st1 where
    st1: "loop_body fill_value st h s = Inr st1"
    by (cases "loop_body fill_value st h s") auto
  with b have "buffer_inv st1" "cons st1 = Some c" by simp_all
  from Cons.IH [OF this] Cons.prems(3) st1 show ?case
    by (auto simp: x)
qed

lemma calculate_snp_matrix_chunk:
  assumes "\<forall>(h, s) \<in> set recs. length s = length c
            \<and> length (snp_cols c 110 s) \<le> INITIALISATION_LENGTH div 2"
    and "recs \<noteq> []" and "0 < chunk_size"
  shows "\<exists>X. calculate_snp_matrix recs (Some c) 110 chunk_size None
               = Inr (Some X, drop (nat chunk_size) recs)"
proof -
  have inv0: "buffer_inv (init_state (Some c))" "cons (init_state (Some c)) = Some c"
    by (simp_all add: buffer_inv_def init_state_def INITIALISATION_LENGTH_def)
  from snp_loop_succeeds [OF inv0 assms(1)] obtain st' rest where
    l: "snp_loop 110 chunk_size [] (init_state (Some c)) recs = Inr (st', rest)" by blast
  from snp_loop_rest [OF l] assms(3) have r: "rest = drop (nat chunk_size) recs"
    by (simp add: init_state_def)
  have "wf_buffers (init_state (Some c))" by (simp add: wf_buffers_def init_state_def)
  from snp_loop_Some [OF inv0(2) this l] assms(2,3)
  have "nseqs st' \<noteq> 0"
    by (cases recs) (auto simp: init_state_def accepted_def)
  with l r show ?thesis
    by (simp add: calculate_snp_matrix_def)
qed

lemma map_nth_fun: "map (\<lambda>i. f (xs ! i)) [0..<length xs] = map f xs"
proof -
  have "map f xs = map f (map ((!) xs) [0..<length xs])" by (simp only: map_nth)
  then show ?thesis by (simp add: comp_def)
qed

lemma encoded_distance_matrix:
  assumes enc: "calculate_snp_matrix recs (Some ref) 110 chunk_size ignore_seqs = Inr (Some X, rest)"
    and B: "snd (shape B) = length ref"
  shows "calculate_distance_matrix (snps X) B c =
           Inr (map (\<lambda>rec. map (seq_distance ref B (snd rec)) [0..<fst (shape B)])
                  (accepted_records chunk_size ignore_seqs recs))"
proof -
  let ?acc = "accepted_records chunk_size ignore_seqs recs"
  note ch = calculate_snp_matrix_Some [OF enc, folded accepted_records_eq]
  have sh: "shape (snps X) = (length ?acc, length ref)" using ch by simp
  have nm: "length (names X) = length ?acc" using ch by simp
  have de: "distance_entry (snps X) B i j = seq_distance ref B (snd (?acc ! i)) j"
    if "i < length ?acc" for i j
  proof -
    have "distance_entry (snps X) B i j =
            (\<Sum>p\<leftarrow>[0..<length ref]. contrib (cell (snps X) i p) (cell B j p))"
      using distance_entry_sum [of "snps X" B i j] by (simp add: sh B)
    also have "\<dots> = seq_distance ref B (snd (?acc ! i)) j"
      unfolding seq_distance_def
      by (rule arg_cong [where f = sum_list], rule map_cong [OF refl])
         (use that nm in \<open>simp add: encoded_cell [OF enc]\<close>)
    finally show ?thesis .
  qed
  have "map (\<lambda>i. map (distance_entry (snps X) B i) [0..<fst (shape B)]) [0..<length ?acc]
          = map (\<lambda>i. map (seq_distance ref B (snd (?acc ! i))) [0..<fst (shape B)]) [0..<length ?acc]"
    by (rule map_cong [OF refl]) (simp add: de)
  also have "\<dots> = map (\<lambda>rec. map (seq_distance ref B (snd rec)) [0..<fst (shape B)]) ?acc"
    by (rule map_nth_fun)
  finally show ?thesis
    by (simp add: calculate_distance_matrix_def sh B)
qed

lemma update_fresh: "k \<notin> fst ` set al \<Longrightarrow> AList.update k v al = al @ [(k, v)]"
  by (induction al) auto

lemma fold_update_distinct:
  "distinct (map fst kvs) \<Longrightarrow> fst ` set kvs \<inter> fst ` set al = {}
     \<Longrightarrow> fold (\<lambda>(k, v). AList.update k v) kvs al = al @ kvs"
proof (induction kvs arbitrary: al)
  case Nil
  then show ?case by simp
next
  case (Cons kv kvs)
  obtain k v where kv: "kv = (k, v)" by (cases kv)
  from Cons.prems have fresh: "k \<notin> fst ` set al" by (auto simp: kv)
  have "fst ` set kvs \<inter> fst ` set (al @ [(k, v)]) = {}"
    using Cons.prems by (auto simp: kv)
  with Cons.IH [of "al @ [(k, v)]"] Cons.prems show ?case
    by (simp add: kv update_fresh [OF fresh])
qed

lemma fold_update_map:
  "fold (\<lambda>(i, j). AList.update (kf i) (vf i j)) xs al
     = fold (\<lambda>(k, v). AList.update k v) (map (\<lambda>(i, j). (kf i, vf i j)) xs) al"
  by (induction xs arbitrary: al) auto

lemma chunk_lines_distinct:
  assumes nm: "names X = map fst acc" and dist: "distinct (map fst acc)"
    and D: "D = map (\<lambda>rec. map (seq_distance ref (snps F) (snd rec)) [0..<fst (shape (snps F))]) acc"
  shows "chunk_lines X F D (length ref) = map (result_line ref F) acc"
proof -
  let ?row = "\<lambda>rec. map (seq_distance ref (snps F) (snd rec)) [0..<fst (shape (snps F))]"
  let ?g = "\<lambda>d_row. if length ref = 0 then 0
                      else argmin (map2 (float_key (length ref)) d_row (map length (filled_positions F)))"
  let ?kv = "\<lambda>rec. (fst rec, (?row rec ! ?g (?row rec), names F ! ?g (?row rec)))"
  have cm: "closest_match D (map length (filled_positions F)) (length ref) = map (\<lambda>rec. ?g (?row rec)) acc"
    by (simp add: closest_match_def D comp_def)
  have len: "length (closest_match D (map length (filled_positions F)) (length ref)) = length acc"
    by (simp add: cm)
  have kvs: "map (\<lambda>(context_index, focal_index).
                   (names X ! context_index, (D ! context_index ! focal_index, names F ! focal_index)))
               (zip [0..<length acc] (map (\<lambda>rec. ?g (?row rec)) acc))
             = map ?kv acc"
    by (rule nth_equalityI) (simp_all add: nm D)
  have "fold (\<lambda>(context_index, focal_index).
                 AList.update (names X ! context_index) (D ! context_index ! focal_index, names F ! focal_index))
             (zip [0..<length acc] (map (\<lambda>rec. ?g (?row rec)) acc)) []
        = fold (\<lambda>(k, v). AList.update k v)
            (map (\<lambda>(context_index, focal_index).
                   (names X ! context_index, (D ! context_index ! focal_index, names F ! focal_index)))
               (zip [0..<length acc] (map (\<lambda>rec. ?g (?row rec)) acc))) []"
    by (rule fold_update_map)
  also have "\<dots> = map ?kv acc"
    unfolding kvs using dist by (subst fold_update_distinct) (simp_all add: comp_def)
  finally have "chunk_lines X F D (length ref) =
                  map (\<lambda>(seqid, (dist, strain)). Row seqid strain dist) (map ?kv acc)"
    by (simp add: chunk_lines_def Let_def cm)
  also have "\<dots> = map (result_line ref F) acc"
    by (simp add: result_line_def closest_match_def Let_def)
  finally show ?thesis .
qed

text \<open>
  When every record has the length of the reference and at most
  \<open>INITIALISATION_LENGTH / 2\<close> SNPs, and the names are distinct, the loop writes for
  every record the line the record gets on its own, whatever the positive chunk size.
\<close>

lemma main_loop_lines:
  assumes F: "snd (shape (snps F)) = length ref" and k: "0 < chunk_size"
    and ok: "\<forall>(h, s) \<in> set recs. length s = length ref
               \<and> length (snp_cols ref 110 s) \<le> INITIALISATION_LENGTH div 2"
    and dist: "distinct (map fst recs)"
  shows "main_loop F ref chunk_size recs out = (out @ map (result_line ref F) recs, None)"
  using ok dist
proof (induction "length recs" arbitrary: recs out rule: less_induct)
  case less
  show ?case
  proof (cases "recs = []")
    case True
    then show ?thesis by (simp add: main_loop_empty)
  next
    case False
    let ?tk = "take (nat chunk_size) recs" and ?dr = "drop (nat chunk_size) recs"
    from calculate_snp_matrix_chunk [OF less.prems(1) False k] obtain X where
      enc: "calculate_snp_matrix recs (Some ref) 110 chunk_size None = Inr (Some X, ?dr)"
      by blast
    have acc: "accepted_records chunk_size None recs = ?tk"
      using k by (simp add: accepted_records_def)
    from calculate_snp_matrix_Some [OF enc, folded accepted_records_eq]
    have nm: "names X = map fst ?tk" by (simp add: acc)
    have D: "calculate_distance_matrix (snps X) (snps F) (consensus X) =
               Inr (map (\<lambda>rec. map (seq_distance ref (snps F) (snd rec)) [0..<fst (shape (snps F))]) ?tk)"
      using encoded_distance_matrix [OF enc F] by (simp add: acc)
    have dt: "distinct (map fst ?tk)"
      using less.prems(2) by (simp add: take_map [symmetric] distinct_take)
    have CL: "chunk_lines X F
                (map (\<lambda>rec. map (seq_distance ref (snps F) (snd rec)) [0..<fst (shape (snps F))]) ?tk)
                (length ref) = map (result_line ref F) ?tk"
      by (rule chunk_lines_distinct [OF nm dt refl])
    have step: "main_loop F ref chunk_size recs out
                  = main_loop F ref chunk_size ?dr (out @ map (result_line ref F) ?tk)"
      by (subst main_loop.simps) (simp only: enc D CL sum.case prod.case option.case)
    have shorter: "length ?dr < length recs"
      using False k by (cases recs) auto
    have ok': "\<forall>(h, s) \<in> set ?dr. length s = length ref
                 \<and> length (snp_cols ref 110 s) \<le> INITIALISATION_LENGTH div 2"
      using less.prems(1) by (auto dest: in_set_dropD)
    have dd: "distinct (map fst ?dr)"
      using less.prems(2) by (simp add: drop_map [symmetric] distinct_drop)
    have "main_loop F ref chunk_size ?dr (out @ map (result_line ref F) ?tk)
            = ((out @ map (result_line ref F) ?tk) @ map (result_line ref F) ?dr, None)"
      by (rule less.hyps [OF shorter ok' dd])
    also have "(out @ map (result_line ref F) ?tk) @ map (result_line ref F) ?dr
                 = out @ map (result_line ref F) recs"
      by (simp add: map_append [symmetric])
    finally show ?thesis using step by simp
  qed
qed

text \<open>
  So, under these conditions, reading the context set in chunks of any positive size gives
  the output of reading it as one chunk.
\<close>

lemma chunking_invariant:
  assumes "calculate_snp_matrix focal_alignment (Some ref) 110 0 ignore_seqs = Inr (Some F, frest)"
    and "0 < chunk_size"
    and "\<forall>(h, s) \<in> set recs. length s = length ref
           \<and> length (snp_cols ref 110 s) \<le> INITIALISATION_LENGTH div 2"
    and "distinct (map fst recs)"
  shows "main_loop F ref chunk_size recs out = main_loop F ref (int (length recs)) recs out"
proof (cases "recs = []")
  case True
  then show ?thesis by (simp add: main_loop_empty)
next
  case False
  then have n: "0 < int (length recs)" by simp
  have F: "snd (shape (snps F)) = length ref"
    by (simp add: encoded_shape [OF assms(1)])
  show ?thesis
    by (simp only: main_loop_lines [OF F assms(2-4)] main_loop_lines [OF F n assms(3,4)])
qed

section \<open>Symmetry and sign of the distance matrix\<close>

text \<open>
  C4. For two SNP matrices with the same number of columns (both encoded against one
  reference), a row index \<open>i\<close> of A and a row index \<open>j\<close> of B, both calls of
  \<open>calculate_distance_matrix\<close> return a matrix, and entry \<open>[i][j]\<close> of the call on
  \<open>(A, B)\<close> equals entry \<open>[j][i]\<close> of the call on \<open>(B, A)\<close>.
\<close>

theorem distance_matrix_symmetric:
  assumes "snd (shape A) = snd (shape B)" and "i < fst (shape A)" and "j < fst (shape B)"
  shows "\<exists>D D'. calculate_distance_matrix A B c = Inr D
               \<and> calculate_distance_matrix B A c' = Inr D'
               \<and> D ! i ! j = D' ! j ! i"
proof -
  obtain D where D: "calculate_distance_matrix A B c = Inr D" "D ! i ! j = distance_entry A B i j"
    using calculate_distance_matrix_nth [OF assms] by blast
  obtain D' where D': "calculate_distance_matrix B A c' = Inr D'"
      "D' ! j ! i = distance_entry B A j i"
    using calculate_distance_matrix_nth [of B A j i c'] assms by auto
  from D D' show ?thesis
    using distance_entry_commute [OF assms(1)] by simp
qed

theorem distance_matrix_symmetric_witness:
  "\<exists>D D'. calculate_distance_matrix \<lparr>shape = (2, 4), entries = [(0, 3, 97), (1, 0, 99)]\<rparr>
              \<lparr>shape = (1, 4), entries = [(0, 3, 103)]\<rparr> [97, 99, 103, 116] = Inr D
         \<and> calculate_distance_matrix \<lparr>shape = (1, 4), entries = [(0, 3, 103)]\<rparr>
              \<lparr>shape = (2, 4), entries = [(0, 3, 97), (1, 0, 99)]\<rparr> [97, 99, 103, 116] = Inr D'
         \<and> D ! 1 ! 0 = D' ! 0 ! 1"
  using distance_matrix_symmetric
    [of "\<lparr>shape = (2, 4), entries = [(0, 3, 97), (1, 0, 99)]\<rparr>"
        "\<lparr>shape = (1, 4), entries = [(0, 3, 103)]\<rparr>" 1 0
        "[97, 99, 103, 116]" "[97, 99, 103, 116]"]
  by simp

text \<open>
  C9. For two SNP matrices with the same number of columns (both encoded against one
  reference), \<open>calculate_distance_matrix\<close> returns a matrix with one row per row of A
  and one column per row of B, and every entry of it is at least 0.
\<close>

theorem distance_matrix_nonneg:
  assumes "snd (shape A) = snd (shape B)"
  shows "\<exists>D. calculate_distance_matrix A B c = Inr D
            \<and> length D = fst (shape A)
            \<and> (\<forall>row \<in> set D. length row = fst (shape B) \<and> (\<forall>x \<in> set row. 0 \<le> x))"
  using assms by (auto simp: calculate_distance_matrix_def distance_entry_nonneg)

theorem distance_matrix_nonneg_witness:
  "\<exists>D. calculate_distance_matrix \<lparr>shape = (2, 4), entries = [(0, 3, 97), (1, 0, 99)]\<rparr>
           \<lparr>shape = (1, 4), entries = [(0, 3, 103)]\<rparr> [97, 99, 103, 116] = Inr D
      \<and> length D = 2
      \<and> (\<forall>row \<in> set D. length row = 1 \<and> (\<forall>x \<in> set row. 0 \<le> x))"
  using distance_matrix_nonneg
    [of "\<lparr>shape = (2, 4), entries = [(0, 3, 97), (1, 0, 99)]\<rparr>"
        "\<lparr>shape = (1, 4), entries = [(0, 3, 103)]\<rparr>" "[97, 99, 103, 116]"]
  by simp

section \<open>The distance formula on encoded sequences\<close>

text \<open>
  C1, as amended. For two sequence sets encoded against the same reference, a row \<open>i\<close>
  of A and a row \<open>j\<close> of B, \<open>calculate_distance_matrix\<close> returns a matrix whose entry
  \<open>(i, j)\<close> is the union of the SNP positions (the count of positions where sequence
  \<open>i\<close> deviates from the reference and is not masked, plus the same count for \<open>j\<close>,
  minus the count of positions that are SNPs of both), minus the count of positions
  where both carry the same non-reference base, minus the unique-masked term
  \<open>diff_n\<close> that line 149 computes from the cells equal to 110; that term is 0,
  because the encoder stores no cell for a masked position.
\<close>

theorem distance_entry_encoded:
  assumes "calculate_snp_matrix recsA (Some ref) 110 chunkA ignoreA = Inr (Some RA, restA)"
    and "calculate_snp_matrix recsB (Some ref) 110 chunkB ignoreB = Inr (Some RB, restB)"
    and "i < length (names RA)" and "j < length (names RB)"
  shows "\<exists>D. calculate_distance_matrix (snps RA) (snps RB) c' = Inr D
           \<and> D ! i ! j =
               (count_positions (length ref) (snp_at ref (snd (accepted_records chunkA ignoreA recsA ! i)))
                + count_positions (length ref) (snp_at ref (snd (accepted_records chunkB ignoreB recsB ! j)))
                - count_positions (length ref)
                    (\<lambda>p. snp_at ref (snd (accepted_records chunkA ignoreA recsA ! i)) p
                         \<and> snp_at ref (snd (accepted_records chunkB ignoreB recsB ! j)) p))
               - count_positions (length ref)
                   (\<lambda>p. snp_at ref (snd (accepted_records chunkA ignoreA recsA ! i)) p
                        \<and> snp_at ref (snd (accepted_records chunkB ignoreB recsB ! j)) p
                        \<and> base_at (snd (accepted_records chunkA ignoreA recsA ! i)) p
                          = base_at (snd (accepted_records chunkB ignoreB recsB ! j)) p)
               - diff_n (snps RA) (snps RB) i j
           \<and> diff_n (snps RA) (snps RB) i j = 0"
proof -
  have sh: "snd (shape (snps RA)) = snd (shape (snps RB))"
    "i < fst (shape (snps RA))" "j < fst (shape (snps RB))"
    using assms(3,4) by (simp_all add: encoded_shape [OF assms(1)] encoded_shape [OF assms(2)])
  obtain D where D: "calculate_distance_matrix (snps RA) (snps RB) c' = Inr D"
      "D ! i ! j = distance_entry (snps RA) (snps RB) i j"
    using calculate_distance_matrix_nth [OF sh] by blast
  show ?thesis
    using D encoded_distance_entry [OF assms] encoded_n_terms(3) [OF assms]
    by simp
qed

theorem distance_entry_encoded_witness:
  "\<exists>D. calculate_distance_matrix \<lparr>shape = (2, 4), entries = [(0, 3, 97)]\<rparr>
          \<lparr>shape = (1, 4), entries = [(0, 0, 116)]\<rparr> [] = Inr D
      \<and> D ! 0 ! 0 = 2"
proof -
  have a: "calculate_snp_matrix [(''x'', ''acgA''), (''y'', ''acNt'')] (Some [97, 99, 103, 116]) 110 0 None
        = Inr (Some \<lparr>snps = \<lparr>shape = (2, 4), entries = [(0, 3, 97)]\<rparr>,
                     consensus = [97, 99, 103, 116], names = [''x'', ''y''],
                     filled_positions = [[], [2]]\<rparr>, [])"
    by code_simp
  have b: "calculate_snp_matrix [(''f'', ''tcgt'')] (Some [97, 99, 103, 116]) 110 0 None
        = Inr (Some \<lparr>snps = \<lparr>shape = (1, 4), entries = [(0, 0, 116)]\<rparr>,
                     consensus = [97, 99, 103, 116], names = [''f''],
                     filled_positions = [[]]\<rparr>, [])"
    by code_simp
  have c: "count_positions (length [97, 99, 103, 116 :: int8]) (snp_at [97, 99, 103, 116] ''acgA'') = 1"
          "count_positions (length [97, 99, 103, 116 :: int8]) (snp_at [97, 99, 103, 116] ''tcgt'') = 1"
          "count_positions (length [97, 99, 103, 116 :: int8]) (\<lambda>p. snp_at [97, 99, 103, 116] ''acgA'' p \<and> snp_at [97, 99, 103, 116] ''tcgt'' p) = 0"
          "count_positions (length [97, 99, 103, 116 :: int8]) (\<lambda>p. snp_at [97, 99, 103, 116] ''acgA'' p \<and> snp_at [97, 99, 103, 116] ''tcgt'' p
                \<and> base_at ''acgA'' p = base_at ''tcgt'' p) = 0"
    by code_simp+
  have d: "accepted_records 0 None [(''x'', ''acgA''), (''y'', ''acNt'')] ! 0 = (''x'', ''acgA'')"
          "accepted_records 0 None [(''f'', ''tcgt'')] ! 0 = (''f'', ''tcgt'')"
    by code_simp+
  show ?thesis
    using distance_entry_encoded [OF a b, of 0 0 "[]"] c d by auto
qed

text \<open>
  C1 as stated fails: against the reference \<open>a\<close>, the sequences \<open>n\<close> and \<open>c\<close> get
  the distance 1 from the code, and 0 from the formula of the claim, which counts masked
  positions as noteworthy and takes those unique to one side off again.
\<close>

theorem distance_entry_claim_counterexample:
  "calculate_snp_matrix [(''x'', ''n'')] (Some (sequence_to_int_array ''a'' 110 True)) 110 0 None
     = Inr (Some \<lparr>snps = \<lparr>shape = (1, 1), entries = []\<rparr>, consensus = [97], names = [''x''],
                  filled_positions = [[0]]\<rparr>, [])
   \<and> calculate_snp_matrix [(''y'', ''c'')] (Some (sequence_to_int_array ''a'' 110 True)) 110 0 None
     = Inr (Some \<lparr>snps = \<lparr>shape = (1, 1), entries = [(0, 0, 99)]\<rparr>, consensus = [97], names = [''y''],
                  filled_positions = [[]]\<rparr>, [])
   \<and> calculate_distance_matrix \<lparr>shape = (1, 1), entries = []\<rparr>
        \<lparr>shape = (1, 1), entries = [(0, 0, 99)]\<rparr> [97] = Inr [[1]]
   \<and> spec_distance (sequence_to_int_array ''a'' 110 True) ''n'' ''c'' = 0"
  by code_simp

section \<open>The shared-masked term\<close>

text \<open>
  C2, as amended. For two sequence sets encoded against the same reference and every
  pair \<open>(i, j)\<close>, the shared-masked term \<open>n_comp\<close> of line 131 is the number of
  columns in which both SNP-matrix rows hold the code 110, and it is 0: line 82 keeps
  masked positions out of the matrix, whatever the number of positions at which both
  original sequences are masked.
\<close>

theorem shared_masked_term_encoded:
  assumes "calculate_snp_matrix recsA (Some ref) 110 chunkA ignoreA = Inr (Some RA, restA)"
    and "calculate_snp_matrix recsB (Some ref) 110 chunkB ignoreB = Inr (Some RB, restB)"
    and "i < length (names RA)" and "j < length (names RB)"
  shows "n_comp (snps RA) (snps RB) i j =
           count_positions (length ref) (\<lambda>p. cell (snps RA) i p = 110 \<and> cell (snps RB) j p = 110)
       \<and> n_comp (snps RA) (snps RB) i j = 0"
  using n_comp_count [of "snps RA" "snps RB" i j] encoded_n_terms(1) [OF assms]
  by (simp add: encoded_shape [OF assms(1)])

theorem shared_masked_term_encoded_witness:
  "n_comp \<lparr>shape = (1, 2), entries = [(0, 0, 99)]\<rparr> \<lparr>shape = (1, 2), entries = []\<rparr> 0 0 =
     count_positions (length [97, 97 :: int8])
       (\<lambda>p. cell \<lparr>shape = (1, 2), entries = [(0, 0, 99)]\<rparr> 0 p = 110
            \<and> cell \<lparr>shape = (1, 2), entries = []\<rparr> 0 p = 110)
   \<and> n_comp \<lparr>shape = (1, 2), entries = [(0, 0, 99)]\<rparr> \<lparr>shape = (1, 2), entries = []\<rparr> 0 0 = 0"
proof -
  have a: "calculate_snp_matrix [(''x'', ''cn'')] (Some [97, 97]) 110 0 None
        = Inr (Some \<lparr>snps = \<lparr>shape = (1, 2), entries = [(0, 0, 99)]\<rparr>,
                     consensus = [97, 97], names = [''x''], filled_positions = [[1]]\<rparr>, [])"
    by code_simp
  have b: "calculate_snp_matrix [(''f'', ''an'')] (Some [97, 97]) 110 0 None
        = Inr (Some \<lparr>snps = \<lparr>shape = (1, 2), entries = []\<rparr>,
                     consensus = [97, 97], names = [''f''], filled_positions = [[1]]\<rparr>, [])"
    by code_simp
  show ?thesis
    using shared_masked_term_encoded [OF a b, of 0 0] by simp
qed

text \<open>
  C2 as stated fails: \<open>cn\<close> and \<open>a-\<close> are both masked at position 1, and the
  shared-masked term of the pair is 0, not 1.
\<close>

theorem shared_masked_term_counterexample:
  "calculate_snp_matrix [(''x'', ''cn'')] (Some (sequence_to_int_array ''aa'' 110 True)) 110 0 None
     = Inr (Some \<lparr>snps = \<lparr>shape = (1, 2), entries = [(0, 0, 99)]\<rparr>,
                  consensus = [97, 97], names = [''x''], filled_positions = [[1]]\<rparr>, [])
   \<and> calculate_snp_matrix [(''f'', ''a-'')] (Some (sequence_to_int_array ''aa'' 110 True)) 110 0 None
     = Inr (Some \<lparr>snps = \<lparr>shape = (1, 2), entries = []\<rparr>,
                  consensus = [97, 97], names = [''f''], filled_positions = [[1]]\<rparr>, [])
   \<and> n_comp \<lparr>shape = (1, 2), entries = [(0, 0, 99)]\<rparr> \<lparr>shape = (1, 2), entries = []\<rparr> 0 0 = 0
   \<and> count_positions 2 (\<lambda>p. masked_at ''cn'' p \<and> masked_at ''a-'' p) = 1"
  by code_simp

section \<open>Positions masked on one side\<close>

text \<open>
  C3, as amended. The distance entry \<open>(i, j)\<close> of two encoded sequences is the sum over
  the alignment positions of what each position adds (\<open>contrib\<close>). A position that is
  masked in exactly one of the two sequences adds 0 when the unmasked sequence has the
  reference base there, and 1 when the unmasked sequence deviates from the reference
  there.
\<close>

theorem one_side_masked_contribution:
  assumes "calculate_snp_matrix recsA (Some ref) 110 chunkA ignoreA = Inr (Some RA, restA)"
    and "calculate_snp_matrix recsB (Some ref) 110 chunkB ignoreB = Inr (Some RB, restB)"
    and "i < length (names RA)" and "j < length (names RB)" and "p < length ref"
    and "masked_at (snd (accepted_records chunkA ignoreA recsA ! i)) p
           \<noteq> masked_at (snd (accepted_records chunkB ignoreB recsB ! j)) p"
  shows "\<exists>D. calculate_distance_matrix (snps RA) (snps RB) c' = Inr D
           \<and> D ! i ! j = (\<Sum>q\<leftarrow>[0..<length ref]. contrib (cell (snps RA) i q) (cell (snps RB) j q))
           \<and> contrib (cell (snps RA) i p) (cell (snps RB) j p) =
               (if masked_at (snd (accepted_records chunkA ignoreA recsA ! i)) p
                then ind (deviates_at ref (snd (accepted_records chunkB ignoreB recsB ! j)) p)
                else ind (deviates_at ref (snd (accepted_records chunkA ignoreA recsA ! i)) p))"
proof -
  have sh: "snd (shape (snps RA)) = snd (shape (snps RB))"
    "i < fst (shape (snps RA))" "j < fst (shape (snps RB))"
    using assms(3,4) by (simp_all add: encoded_shape [OF assms(1)] encoded_shape [OF assms(2)])
  obtain D where D: "calculate_distance_matrix (snps RA) (snps RB) c' = Inr D"
      "D ! i ! j = distance_entry (snps RA) (snps RB) i j"
    using calculate_distance_matrix_nth [OF sh] by blast
  have "D ! i ! j = (\<Sum>q\<leftarrow>[0..<length ref]. contrib (cell (snps RA) i q) (cell (snps RB) j q))"
    using D(2) distance_entry_sum [OF sh(1)] by (simp add: encoded_shape [OF assms(1)])
  moreover have "contrib (cell (snps RA) i p) (cell (snps RB) j p) =
               (if masked_at (snd (accepted_records chunkA ignoreA recsA ! i)) p
                then ind (deviates_at ref (snd (accepted_records chunkB ignoreB recsB ! j)) p)
                else ind (deviates_at ref (snd (accepted_records chunkA ignoreA recsA ! i)) p))"
    using assms(6) by (auto simp: encoded_contrib [OF assms(1-5)] snp_at_def ind_def)
  ultimately show ?thesis using D(1) by blast
qed

theorem one_side_masked_contribution_witness:
  "\<exists>D. calculate_distance_matrix \<lparr>shape = (1, 4), entries = []\<rparr>
          \<lparr>shape = (1, 4), entries = [(0, 2, 97)]\<rparr> [] = Inr D
      \<and> D ! 0 ! 0 = (\<Sum>q\<leftarrow>[0..<length [97, 99, 103, 116 :: int8]].
                       contrib (cell \<lparr>shape = (1, 4), entries = []\<rparr> 0 q)
                               (cell \<lparr>shape = (1, 4), entries = [(0, 2, 97)]\<rparr> 0 q))
      \<and> contrib (cell \<lparr>shape = (1, 4), entries = []\<rparr> 0 2)
                 (cell \<lparr>shape = (1, 4), entries = [(0, 2, 97)]\<rparr> 0 2) = 1"
proof -
  have a: "calculate_snp_matrix [(''x'', ''acNt'')] (Some [97, 99, 103, 116]) 110 0 None
        = Inr (Some \<lparr>snps = \<lparr>shape = (1, 4), entries = []\<rparr>,
                     consensus = [97, 99, 103, 116], names = [''x''],
                     filled_positions = [[2]]\<rparr>, [])"
    by code_simp
  have b: "calculate_snp_matrix [(''f'', ''acat'')] (Some [97, 99, 103, 116]) 110 0 None
        = Inr (Some \<lparr>snps = \<lparr>shape = (1, 4), entries = [(0, 2, 97)]\<rparr>,
                     consensus = [97, 99, 103, 116], names = [''f''],
                     filled_positions = [[]]\<rparr>, [])"
    by code_simp
  have d: "accepted_records 0 None [(''x'', ''acNt'')] ! 0 = (''x'', ''acNt'')"
          "accepted_records 0 None [(''f'', ''acat'')] ! 0 = (''f'', ''acat'')"
          "masked_at ''acNt'' 2" "\<not> masked_at ''acat'' 2"
          "deviates_at [97, 99, 103, 116] ''acat'' 2"
    by code_simp+
  show ?thesis
    using one_side_masked_contribution [OF a b, of 0 0 2 "[]"] d by (auto simp: ind_def)
qed

text \<open>
  C3 as stated fails: position 2 is masked in \<open>acNt\<close> only, \<open>acat\<close> deviates from
  the reference \<open>acgt\<close> there, and the position adds 1 to the distance, which is 1.
\<close>

theorem one_side_masked_counterexample:
  "masked_at ''acNt'' 2 \<and> \<not> masked_at ''acat'' 2
   \<and> calculate_snp_matrix [(''x'', ''acNt'')] (Some (sequence_to_int_array ''acgt'' 110 True)) 110 0 None
     = Inr (Some \<lparr>snps = \<lparr>shape = (1, 4), entries = []\<rparr>,
                  consensus = [97, 99, 103, 116], names = [''x''], filled_positions = [[2]]\<rparr>, [])
   \<and> calculate_snp_matrix [(''f'', ''acat'')] (Some (sequence_to_int_array ''acgt'' 110 True)) 110 0 None
     = Inr (Some \<lparr>snps = \<lparr>shape = (1, 4), entries = [(0, 2, 97)]\<rparr>,
                  consensus = [97, 99, 103, 116], names = [''f''], filled_positions = [[]]\<rparr>, [])
   \<and> calculate_distance_matrix \<lparr>shape = (1, 4), entries = []\<rparr>
        \<lparr>shape = (1, 4), entries = [(0, 2, 97)]\<rparr> [97, 99, 103, 116] = Inr [[1]]
   \<and> contrib (cell \<lparr>shape = (1, 4), entries = []\<rparr> 0 2)
              (cell \<lparr>shape = (1, 4), entries = [(0, 2, 97)]\<rparr> 0 2) = 1"
  by code_simp

section \<open>A sequence encoded against itself\<close>

text \<open>
  C8, as amended. For every sequence \<open>S\<close>, the encoder run on \<open>S\<close> as the only record,
  with \<open>S\<close> as the reference (supplied, or taken from the record), returns a SNP matrix
  of one row with no non-zero entry; the masked-position list of the row holds the
  positions of \<open>S\<close> whose symbol is none of a, c, g, t, so it is empty only when \<open>S\<close>
  has no unknown symbol and no gap.
\<close>

theorem encode_self:
  "calculate_snp_matrix [(h, S)] (Some (sequence_to_int_array S 110 True)) 110 chunk_size None =
     Inr (Some \<lparr>snps = \<lparr>shape = (1, length S), entries = []\<rparr>,
                consensus = sequence_to_int_array S 110 True, names = [h],
                filled_positions = [filter (masked_at S) [0..<length S]]\<rparr>, [])
   \<and> calculate_snp_matrix [(h, S)] None 110 chunk_size None =
     Inr (Some \<lparr>snps = \<lparr>shape = (1, length S), entries = []\<rparr>,
                consensus = sequence_to_int_array S 110 True, names = [h],
                filled_positions = [filter (masked_at S) [0..<length S]]\<rparr>, [])"
  by (simp add: calculate_snp_matrix_def init_state_def loop_body_self INITIALISATION_LENGTH_def)

theorem encode_self_witness:
  "calculate_snp_matrix [(''s'', ''acgt'')] (Some (sequence_to_int_array ''acgt'' 110 True)) 110 0 None =
     Inr (Some \<lparr>snps = \<lparr>shape = (1, 4), entries = []\<rparr>,
                consensus = [97, 99, 103, 116], names = [''s''],
                filled_positions = [[]]\<rparr>, [])"
proof -
  have "sequence_to_int_array ''acgt'' 110 True = [97, 99, 103, 116]"
       "filter (masked_at ''acgt'') [0..<length ''acgt''] = []"
    by code_simp+
  then show ?thesis
    using encode_self [of "''s''" "''acgt''" 0] by simp
qed

text \<open>
  C8 as stated fails: \<open>acgn\<close> encoded against itself has the masked-position list
  \<open>[3]\<close>.
\<close>

theorem encode_self_masked_counterexample:
  "calculate_snp_matrix [(''s'', ''acgn'')] (Some (sequence_to_int_array ''acgn'' 110 True)) 110 0 None =
     Inr (Some \<lparr>snps = \<lparr>shape = (1, 4), entries = []\<rparr>,
                consensus = [97, 99, 103, 110], names = [''s''],
                filled_positions = [[3]]\<rparr>, [])"
  by code_simp

section \<open>Records of the wrong length\<close>

text \<open>
  C6. If a record that the call accepts has a length other than the reference length,
  the call returns no SNP matrix: it ends with an error, the one of line 79 unless an
  earlier record had already overrun the buffers. At that record the body of the loop
  raises the error of line 79 in every state whose consensus has the reference length,
  before anything of the record is written.
\<close>

theorem length_mismatch_fails:
  assumes "(h, s) \<in> set (accepted_records chunk_size ignore_seqs recs)"
    and "length s \<noteq> reference_length consensus0 (accepted_records chunk_size ignore_seqs recs)"
  shows "(calculate_snp_matrix recs consensus0 fill_value chunk_size ignore_seqs = Inl ValueError_lengths
          \<or> calculate_snp_matrix recs consensus0 fill_value chunk_size ignore_seqs = Inl ValueError_broadcast)
       \<and> (\<forall>st c. cons st = Some c \<and> length c = reference_length consensus0 (accepted_records chunk_size ignore_seqs recs)
              \<longrightarrow> loop_body fill_value st h s = Inl ValueError_lengths)"
proof -
  let ?ign = "case ignore_seqs of None \<Rightarrow> [] | Some l \<Rightarrow> l"
  let ?st0 = "init_state consensus0"
  have z: "nseqs ?st0 = 0" "cons ?st0 = consensus0" by (simp_all add: init_state_def)
  have "\<exists>e. snp_loop fill_value chunk_size ?ign ?st0 recs = Inl e"
  proof (cases "snp_loop fill_value chunk_size ?ign ?st0 recs")
    case (Inl e)
    then show ?thesis by blast
  next
    case (Inr p)
    obtain st' rest where "p = (st', rest)" by (cases p)
    with Inr have "snp_loop fill_value chunk_size ?ign ?st0 recs = Inr (st', rest)" by simp
    from snp_loop_lengths [OF this, of h s] assms show ?thesis
      by (simp add: z accepted_records_eq)
  qed
  then obtain e where e: "snp_loop fill_value chunk_size ?ign ?st0 recs = Inl e" by blast
  from snp_loop_errors [OF e] e
  have "calculate_snp_matrix recs consensus0 fill_value chunk_size ignore_seqs = Inl ValueError_lengths
          \<or> calculate_snp_matrix recs consensus0 fill_value chunk_size ignore_seqs = Inl ValueError_broadcast"
    by (auto simp: calculate_snp_matrix_def)
  moreover have "\<forall>st c. cons st = Some c \<and> length c = reference_length consensus0 (accepted_records chunk_size ignore_seqs recs)
              \<longrightarrow> loop_body fill_value st h s = Inl ValueError_lengths"
    using assms(2) by (auto intro: loop_body_mismatch)
  ultimately show ?thesis by blast
qed

theorem length_mismatch_fails_witness:
  "calculate_snp_matrix [(''x'', ''acgt''), (''y'', ''acg''), (''z'', ''acgt'')] None 110 0 None
     = Inl ValueError_lengths"
proof -
  have a: "(''y'', ''acg'') \<in> set (accepted_records 0 None [(''x'', ''acgt''), (''y'', ''acg''), (''z'', ''acgt'')])"
    by code_simp
  have b: "length ''acg'' \<noteq> reference_length None (accepted_records 0 None [(''x'', ''acgt''), (''y'', ''acg''), (''z'', ''acgt'')])"
    by code_simp
  have c: "calculate_snp_matrix [(''x'', ''acgt''), (''y'', ''acg''), (''z'', ''acgt'')] None 110 0 None
             \<noteq> Inl ValueError_broadcast"
    by code_simp
  from length_mismatch_fails [OF a b, of 110] c show ?thesis by blast
qed

section \<open>The buffers are large enough\<close>

text \<open>
  C10. If every accepted record has at most \<open>INITIALISATION_LENGTH / 2\<close> SNPs, which
  holds whenever the alignment is at most that long, then the call does not fail on a
  slice write; the buffer invariant holds at the start; for every accepted record and
  every state that satisfies the invariant, the body of the loop does not fail on a
  slice write and leaves a state in which the triple count is within the capacity
  reached by the one growth step, within half of it, and the invariant holds again; and
  the invariant holds when the loop ends.
\<close>

theorem buffer_never_exhausted:
  assumes "(\<forall>(h, s) \<in> set (accepted_records chunk_size ignore_seqs recs).
              length (snp_cols (established_consensus consensus0 fill_value
                                  (accepted_records chunk_size ignore_seqs recs)) fill_value s)
                \<le> INITIALISATION_LENGTH div 2)
           \<or> length (established_consensus consensus0 fill_value
                        (accepted_records chunk_size ignore_seqs recs)) \<le> INITIALISATION_LENGTH div 2"
  shows "calculate_snp_matrix recs consensus0 fill_value chunk_size ignore_seqs \<noteq> Inl ValueError_broadcast
       \<and> buffer_inv (init_state consensus0)
       \<and> (\<forall>(h, s) \<in> set (accepted_records chunk_size ignore_seqs recs). \<forall>st.
             buffer_inv st
             \<and> (cons st = Some (established_consensus consensus0 fill_value
                                   (accepted_records chunk_size ignore_seqs recs))
                \<or> cons st = None
                  \<and> established_consensus consensus0 fill_value
                       (accepted_records chunk_size ignore_seqs recs)
                     = sequence_to_int_array s fill_value True)
             \<longrightarrow> loop_body fill_value st h s \<noteq> Inl ValueError_broadcast
               \<and> (\<forall>st1. loop_body fill_value st h s = Inr st1 \<longrightarrow>
                     n_snps st1 \<le> current_length st1 \<and> 2 * n_snps st1 \<le> current_length st1
                     \<and> buffer_inv st1))
       \<and> (\<forall>st' rest. snp_loop fill_value chunk_size (case ignore_seqs of None \<Rightarrow> [] | Some l \<Rightarrow> l)
                        (init_state consensus0) recs = Inr (st', rest)
             \<longrightarrow> 2 * n_snps st' \<le> current_length st')"
proof -
  let ?acc = "accepted_records chunk_size ignore_seqs recs"
  let ?c = "established_consensus consensus0 fill_value ?acc"
  let ?ign = "case ignore_seqs of None \<Rightarrow> [] | Some l \<Rightarrow> l"
  from assms have cnt: "\<forall>(h, s) \<in> set ?acc. length (snp_cols ?c fill_value s) \<le> INITIALISATION_LENGTH div 2"
    using length_snp_cols_le [of ?c fill_value] by (auto intro: le_trans)
  have inv0: "buffer_inv (init_state consensus0)"
    by (simp add: buffer_inv_def init_state_def INITIALISATION_LENGTH_def)
  have z: "nseqs (init_state consensus0) = 0" "cons (init_state consensus0) = consensus0"
    by (simp_all add: init_state_def)
  from cnt have "\<forall>(h, s) \<in> set (accepted chunk_size ?ign (nseqs (init_state consensus0)) recs).
           length (snp_cols (established_consensus (cons (init_state consensus0)) fill_value
                     (accepted chunk_size ?ign (nseqs (init_state consensus0)) recs)) fill_value s)
             \<le> INITIALISATION_LENGTH div 2"
    by (simp add: z accepted_records_eq)
  note loop = snp_loop_no_overflow [OF inv0 this]
  have 1: "calculate_snp_matrix recs consensus0 fill_value chunk_size ignore_seqs \<noteq> Inl ValueError_broadcast"
    using loop by (auto simp: calculate_snp_matrix_def Let_def split: sum.splits)
  have 3: "\<forall>(h, s) \<in> set ?acc. \<forall>st.
             buffer_inv st
             \<and> (cons st = Some ?c \<or> cons st = None \<and> ?c = sequence_to_int_array s fill_value True)
             \<longrightarrow> loop_body fill_value st h s \<noteq> Inl ValueError_broadcast
               \<and> (\<forall>st1. loop_body fill_value st h s = Inr st1 \<longrightarrow>
                     n_snps st1 \<le> current_length st1 \<and> 2 * n_snps st1 \<le> current_length st1
                     \<and> buffer_inv st1)"
  proof (intro ballI, clarify)
    fix h s st
    assume m: "(h, s) \<in> set ?acc" and inv: "buffer_inv st"
      and est: "cons st = Some ?c \<or> cons st = None \<and> ?c = sequence_to_int_array s fill_value True"
    from cnt m have "length (snp_cols ?c fill_value s) \<le> INITIALISATION_LENGTH div 2" by auto
    from loop_body_no_overflow [OF inv est this, of h]
    show "loop_body fill_value st h s \<noteq> Inl ValueError_broadcast
               \<and> (\<forall>st1. loop_body fill_value st h s = Inr st1 \<longrightarrow>
                     n_snps st1 \<le> current_length st1 \<and> 2 * n_snps st1 \<le> current_length st1
                     \<and> buffer_inv st1)"
      by (auto simp: buffer_inv_def)
  qed
  have 4: "\<forall>st' rest. snp_loop fill_value chunk_size ?ign (init_state consensus0) recs = Inr (st', rest)
             \<longrightarrow> 2 * n_snps st' \<le> current_length st'"
    using loop by (auto simp: buffer_inv_def)
  from 1 inv0 3 4 show ?thesis by blast
qed

theorem buffer_never_exhausted_witness:
  "calculate_snp_matrix [(''x'', ''acgA''), (''y'', ''acNt'')] (Some [97, 99, 103, 116]) 110 0 None
     \<noteq> Inl ValueError_broadcast
   \<and> buffer_inv (init_state (Some [97, 99, 103, 116]))"
proof -
  have h: "length (established_consensus (Some [97, 99, 103, 116]) 110
                     (accepted_records 0 None [(''x'', ''acgA''), (''y'', ''acNt'')]))
             \<le> INITIALISATION_LENGTH div 2"
    by code_simp
  from buffer_never_exhausted [OF disjI2 [OF h]] show ?thesis by simp
qed

section \<open>Rounding and the selected focal sequence\<close>

lemma bit_length_bounds:
  "0 < n \<Longrightarrow> 2 ^ (bit_length n - 1) \<le> n \<and> n < 2 ^ bit_length n"
proof (induction n rule: bit_length.induct)
  case (1 n)
  show ?case
  proof (cases "n div 2 = 0")
    case True
    with 1 have "n = 1" by (auto simp: div_eq_0_iff)
    then show ?thesis by (simp add: bit_length.simps)
  next
    case False
    with 1 have ih: "2 ^ (bit_length (n div 2) - 1) \<le> n div 2" "n div 2 < 2 ^ bit_length (n div 2)"
      by simp_all
    have pos: "0 < bit_length (n div 2)"
      using False by (simp add: bit_length.simps [of "n div 2"])
    have bl: "bit_length n = Suc (bit_length (n div 2))"
      using 1 by (simp add: bit_length.simps [of n])
    from ih(1) have "2 * 2 ^ (bit_length (n div 2) - 1) \<le> n" by simp
    moreover have "2 * 2 ^ (bit_length (n div 2) - 1) = (2::nat) ^ bit_length (n div 2)"
      using pos by (cases "bit_length (n div 2)") simp_all
    moreover from ih(2) have "n < 2 * 2 ^ bit_length (n div 2)" by simp
    ultimately show ?thesis by (simp add: bl)
  qed
qed

lemma rne_error: "\<bar>of_int (rne y) - y\<bar> \<le> 1 / 2"
proof -
  have "of_int \<lfloor>y\<rfloor> \<le> y" "y < of_int \<lfloor>y\<rfloor> + 1" by linarith+
  then show ?thesis by (auto simp: rne_def Let_def)
qed

lemma exponent_le:
  assumes "0 < x"
  shows "2 powi (exponent x) \<le> x"
proof -
  obtain p q where pq: "quotient_of x = (p, q)" by (cases "quotient_of x")
  then have q: "0 < q" and x: "x = of_int p / of_int q"
    using quotient_of_denom_pos quotient_of_div by blast+
  with assms have p: "0 < p" by (simp add: zero_less_divide_iff)
  let ?a = "bit_length (nat p)" and ?b = "bit_length (nat q)"
  let ?e = "int ?a - int ?b"
  show ?thesis
  proof (cases "2 powi ?e \<le> x")
    case True
    then show ?thesis by (simp add: exponent_def pq)
  next
    case False
    from bit_length_bounds [of "nat p"] p have lo: "2 ^ (?a - 1) \<le> nat p" by simp
    from bit_length_bounds [of "nat q"] q have hi: "nat q < 2 ^ ?b" by simp
    have a: "0 < ?a" using p by (simp add: bit_length.simps [of "nat p"])
    have "?e - 1 = int (?a - 1) - int ?b"
      using a by linarith
    then have "(2::rat) powi (?e - 1) = 2 powi (int (?a - 1) - int ?b)"
      by (simp only:)
    also have "\<dots> = 2 ^ (?a - 1) / 2 ^ ?b"
      by (simp add: power_int_diff)
    also have "\<dots> \<le> x"
      unfolding x
    proof -
      from lo p have "(2::rat) ^ (?a - 1) \<le> of_int p"
        by (metis nat_0_le of_int_of_nat_eq of_nat_le_iff of_nat_numeral of_nat_power order_less_imp_le)
      moreover from hi q have "of_int q \<le> (2::rat) ^ ?b"
        by (metis less_imp_le nat_0_le of_int_of_nat_eq of_nat_less_iff of_nat_numeral of_nat_power order_less_imp_le)
      moreover have "(0::rat) < of_int q" "(0::rat) < of_int p" using p q by simp_all
      ultimately show "(2::rat) ^ (?a - 1) / 2 ^ ?b \<le> of_int p / of_int q"
        by (intro frac_le) simp_all
    qed
    finally show ?thesis using False by (simp add: exponent_def pq)
  qed
qed

lemma float64_error:
  assumes "0 \<le> x"
  shows "\<bar>float64 x - x\<bar> \<le> x / 2 ^ 53"
proof (cases "x = 0")
  case True
  then show ?thesis by (simp add: float64_def)
next
  case False
  with assms have x: "0 < x" by simp
  let ?u = "(2::rat) powi (exponent x - 52)"
  have u: "0 < ?u" by simp
  have "float64 x - x = (of_int (rne (x / ?u)) - x / ?u) * ?u"
    using x by (simp add: float64_def Let_def algebra_simps)
  then have "\<bar>float64 x - x\<bar> = \<bar>of_int (rne (x / ?u)) - x / ?u\<bar> * ?u"
    by (simp add: abs_mult)
  also have "\<dots> \<le> (1 / 2) * ?u"
    by (intro mult_right_mono rne_error) simp
  also have "\<dots> = 2 powi (exponent x) / 2 ^ 53"
    by (simp add: power_int_diff)
  also have "\<dots> \<le> x / 2 ^ 53"
    using exponent_le [OF x] by (simp add: divide_right_mono)
  finally show ?thesis .
qed

lemma float_key_error:
  assumes "0 < L" and "0 \<le> x" and "x \<le> 2 ^ 25" and "m \<le> L"
  shows "\<bar>float_key L x m - exact_key L x m\<bar> \<le> (2 ^ 25 + 3) / 2 ^ 53"
proof -
  let ?q = "rat_of_nat m / rat_of_nat L"
  have q: "0 \<le> ?q" "?q \<le> 1" using assms(1,4) by simp_all
  have e1: "\<bar>float64 ?q - ?q\<bar> \<le> ?q / 2 ^ 53" by (rule float64_error [OF q(1)])
  also have "\<dots> \<le> 1 / 2 ^ 53" using q(2) by (simp add: divide_right_mono)
  finally have e1': "\<bar>float64 ?q - ?q\<bar> \<le> 1 / 2 ^ 53" .
  have "?q / 2 ^ 53 \<le> ?q / 1" using q(1) by (intro divide_left_mono) simp_all
  then have "?q / 2 ^ 53 \<le> ?q" by simp
  with e1 have "\<bar>float64 ?q - ?q\<bar> \<le> ?q" by linarith
  with e1' q have fq: "0 \<le> float64 ?q" "float64 ?q \<le> 2"
    by linarith+
  let ?y = "rat_of_int x + float64 ?q"
  from assms(3) have "rat_of_int x \<le> rat_of_int (2 ^ 25)" by (simp only: of_int_le_iff)
  then have x: "(0::rat) \<le> of_int x" "rat_of_int x \<le> 2 ^ 25"
    using assms(2) by simp_all
  have y: "0 \<le> ?y" "?y \<le> 2 ^ 25 + 2" using x fq by simp_all
  have "\<bar>float64 ?y - ?y\<bar> \<le> ?y / 2 ^ 53" by (rule float64_error [OF y(1)])
  also have "\<dots> \<le> (2 ^ 25 + 2) / 2 ^ 53" using y(2) by (simp add: divide_right_mono)
  finally have e2: "\<bar>float64 ?y - ?y\<bar> \<le> (2 ^ 25 + 2) / 2 ^ 53" .
  have "float_key L x m - exact_key L x m = (float64 ?y - ?y) + (float64 ?q - ?q)"
    by (simp add: float_key_def exact_key_def)
  then have "\<bar>float_key L x m - exact_key L x m\<bar> \<le> \<bar>float64 ?y - ?y\<bar> + \<bar>float64 ?q - ?q\<bar>"
    by (simp only: abs_triangle_ineq)
  also have "\<dots> \<le> (2 ^ 25 + 2) / 2 ^ 53 + 1 / 2 ^ 53" using e1' e2 by (rule add_mono[rotated])
  finally show ?thesis by (simp add: add_divide_distrib)
qed

lemma exact_key_gap:
  assumes "0 < L" and "exact_key L x2 m2 < exact_key L x1 m1"
  shows "1 / rat_of_nat L \<le> exact_key L x1 m1 - exact_key L x2 m2"
proof -
  have k: "exact_key L x m * rat_of_nat L = rat_of_int (x * int L + int m)" for x m
    using assms(1) by (simp add: exact_key_def field_simps)
  from assms have "exact_key L x2 m2 * rat_of_nat L < exact_key L x1 m1 * rat_of_nat L"
    by simp
  then have "rat_of_int (x2 * int L + int m2) < rat_of_int (x1 * int L + int m1)"
    by (simp only: k)
  then have "x2 * int L + int m2 < x1 * int L + int m1" by (simp only: of_int_less_iff)
  then have "1 \<le> (x1 * int L + int m1) - (x2 * int L + int m2)" by simp
  then have "(1::rat) \<le> rat_of_int ((x1 * int L + int m1) - (x2 * int L + int m2))"
    by (simp only: of_int_1_le_iff)
  also have "\<dots> = (exact_key L x1 m1 - exact_key L x2 m2) * rat_of_nat L"
    by (simp only: of_int_diff k [symmetric] left_diff_distrib)
  finally show ?thesis using assms(1) by (simp add: field_simps)
qed

lemma float_key_order:
  assumes L: "0 < L" "L \<le> 2 ^ 25"
    and b1: "0 \<le> x1" "x1 \<le> 2 ^ 25" "m1 \<le> L"
    and b2: "0 \<le> x2" "x2 \<le> 2 ^ 25" "m2 \<le> L"
    and f: "float_key L x1 m1 \<le> float_key L x2 m2"
  shows "exact_key L x1 m1 \<le> exact_key L x2 m2"
proof (rule ccontr)
  assume "\<not> exact_key L x1 m1 \<le> exact_key L x2 m2"
  then have lt: "exact_key L x2 m2 < exact_key L x1 m1" by simp
  from exact_key_gap [OF L(1) lt] have "1 / rat_of_nat L \<le> exact_key L x1 m1 - exact_key L x2 m2" .
  moreover have "1 / 2 ^ 25 \<le> 1 / rat_of_nat L"
  proof -
    from L(2) have "rat_of_nat L \<le> rat_of_nat (2 ^ 25)" by (simp only: of_nat_le_iff)
    then have "rat_of_nat L \<le> 2 ^ 25" by simp
    with L(1) show ?thesis by (simp add: frac_le)
  qed
  ultimately have gap: "1 / 2 ^ 25 \<le> exact_key L x1 m1 - exact_key L x2 m2" by linarith
  note e1 = float_key_error [OF L(1) b1]
  note e2 = float_key_error [OF L(1) b2]
  from e1 have a: "exact_key L x1 m1 - float_key L x1 m1 \<le> (2 ^ 25 + 3) / 2 ^ 53"
    by linarith
  from e2 have b: "float_key L x2 m2 - exact_key L x2 m2 \<le> (2 ^ 25 + 3) / 2 ^ 53"
    by linarith
  have c: "2 * ((2 ^ 25 + 3) / 2 ^ 53) < (1::rat) / 2 ^ 25" by simp
  from a b c gap f show False by linarith
qed

lemma contrib_le_1: "contrib a b \<le> 1"
  by (auto simp: contrib_def ind_def)

lemma sum_list_le_length: "(\<And>p. p \<in> set xs \<Longrightarrow> f p \<le> (1::int)) \<Longrightarrow> (\<Sum>p\<leftarrow>xs. f p) \<le> int (length xs)"
  by (induction xs) (simp_all add: add_mono)

lemma distance_entry_le:
  "snd (shape A) = snd (shape B) \<Longrightarrow> distance_entry A B i j \<le> int (snd (shape A))"
  using sum_list_le_length [of "[0..<snd (shape A)]" "\<lambda>p. contrib (cell A i p) (cell B j p)"]
  by (simp add: distance_entry_sum contrib_le_1)

lemma length_flatnonzero_le: "length (flatnonzero bs) \<le> length bs"
  by (simp add: length_flatnonzero)

lemma encoded_filled_positions:
  assumes "calculate_snp_matrix recs (Some c) fill_value chunk_size ignore_seqs = Inr (Some R, rest)"
  shows "length (filled_positions R) = length (names R)"
    and "k < length (names R) \<Longrightarrow> length (filled_positions R ! k) \<le> length c"
proof -
  note ch = calculate_snp_matrix_Some [OF assms]
  let ?acc = "accepted chunk_size (case ignore_seqs of None \<Rightarrow> [] | Some l \<Rightarrow> l) 0 recs"
  from ch show "length (filled_positions R) = length (names R)" by simp
  assume k: "k < length (names R)"
  with ch have k': "k < length ?acc" by simp
  then have "?acc ! k \<in> set ?acc" by simp
  with ch have len: "length (snd (?acc ! k)) = length c" by (auto simp: split_beta)
  have "filled_positions R ! k = masked_cols fill_value (snd (?acc ! k))"
    using ch k' by (simp add: split_beta)
  also have "length \<dots> \<le> length (snd (?acc ! k))"
    unfolding masked_cols_def using length_flatnonzero_le [of "map (\<lambda>x. x = fill_value)
      (sequence_to_int_array (snd (?acc ! k)) fill_value True)"] by simp
  finally show "length (filled_positions R ! k) \<le> length c" using len by simp
qed

lemma chunk_lines_rows:
  assumes len: "length d = length (names X)" and dist: "distinct (names X)"
  shows "chunk_lines X F d L =
           map (\<lambda>i. Row (names X ! i) (names F ! selected F d L i) (d ! i ! selected F d L i))
             [0..<length d]"
proof -
  let ?cm = "closest_match d (map length (filled_positions F)) L"
  let ?kv = "\<lambda>i. (names X ! i, (d ! i ! (?cm ! i), names F ! (?cm ! i)))"
  have lcm: "length ?cm = length d" by (simp add: closest_match_def)
  have kvs: "map (\<lambda>(context_index, focal_index).
                   (names X ! context_index, (d ! context_index ! focal_index, names F ! focal_index)))
               (zip [0..<length ?cm] ?cm)
             = map ?kv [0..<length d]"
    by (rule nth_equalityI) (simp_all add: lcm)
  have keys: "map fst (map ?kv [0..<length d]) = names X"
    using map_nth [of "names X"] by (simp add: comp_def len)
  have "fold (\<lambda>(context_index, focal_index).
                 AList.update (names X ! context_index) (d ! context_index ! focal_index, names F ! focal_index))
             (zip [0..<length ?cm] ?cm) []
        = fold (\<lambda>(k, v). AList.update k v)
            (map (\<lambda>(context_index, focal_index).
                   (names X ! context_index, (d ! context_index ! focal_index, names F ! focal_index)))
               (zip [0..<length ?cm] ?cm)) []"
    by (rule fold_update_map)
  also have "\<dots> = map ?kv [0..<length d]"
    unfolding kvs using dist by (subst fold_update_distinct) (simp_all only: keys, simp_all)
  finally have "chunk_lines X F d L =
                  map (\<lambda>(seqid, (dist, strain)). Row seqid strain dist) (map ?kv [0..<length d])"
    by (simp add: chunk_lines_def Let_def)
  then show ?thesis by (simp add: selected_def comp_def)
qed

lemma selected_least:
  assumes "0 < L" and "i < length d" and "length (d ! i) = length (filled_positions F)"
    and "filled_positions F \<noteq> []"
  shows "selected F d L i < length (filled_positions F)"
    and "k < length (filled_positions F) \<Longrightarrow>
           float_key L (d ! i ! selected F d L i) (length (filled_positions F ! selected F d L i))
             \<le> float_key L (d ! i ! k) (length (filled_positions F ! k))"
proof -
  let ?keys = "map2 (float_key L) (d ! i) (map length (filled_positions F))"
  have len: "length ?keys = length (filled_positions F)" using assms(3) by simp
  with assms(4) have ne: "?keys \<noteq> []" by auto
  have sel: "selected F d L i = argmin ?keys"
    using assms(1,2) by (simp add: selected_def closest_match_def)
  have key: "?keys ! k = float_key L (d ! i ! k) (length (filled_positions F ! k))"
    if "k < length (filled_positions F)" for k
    using that assms(3) by simp
  note am = argmin_least [OF ne, unfolded len]
  from am show a: "selected F d L i < length (filled_positions F)" by (simp only: sel)
  assume k: "k < length (filled_positions F)"
  from am k have "?keys ! argmin ?keys \<le> ?keys ! k" by blast
  then show "float_key L (d ! i ! selected F d L i) (length (filled_positions F ! selected F d L i))
             \<le> float_key L (d ! i ! k) (length (filled_positions F ! k))"
    using a by (simp only: key [OF a [unfolded sel]] key [OF k] sel)
qed

section \<open>The closest focal sequence\<close>

text \<open>
  C7, as amended. For a focal set and a chunk of the context set encoded against one
  reference of positive length, \<open>calculate_distance_matrix\<close> returns a matrix \<open>D\<close>, and
  for each context sequence \<open>i\<close> the focal index that line 207 selects is an index of a
  focal sequence that minimises, over all focal sequences \<open>j\<close>, the float64 value of
  \<open>D[i, j]\<close> plus the masked-position count of focal sequence \<open>j\<close> divided by the
  alignment length; when the alignment length is at most \<open>2^25\<close> it also minimises the
  exact value of that sum. With distinct context names, the row written for sequence
  \<open>i\<close> on lines 211 to 216 holds its name, the name of the selected focal sequence and
  \<open>D[i, j]\<close> for the selected \<open>j\<close>. The masked-position lists of the context sequences
  do not enter the rows.
\<close>

theorem closest_match_minimises:
  assumes encF: "calculate_snp_matrix focal_alignment (Some ref) 110 0 ignore_seqs = Inr (Some F, frest)"
    and encX: "calculate_snp_matrix seqs (Some ref) 110 chunk_size ignore_context = Inr (Some X, rest)"
    and L: "0 < length ref"
  shows "\<exists>D. calculate_distance_matrix (snps X) (snps F) (consensus X) = Inr D
     \<and> (\<forall>i < length (names X).
          selected F D (length ref) i < length (names F)
        \<and> (\<forall>k < length (names F).
              float_key (length ref) (D ! i ! selected F D (length ref) i)
                (length (filled_positions F ! selected F D (length ref) i))
              \<le> float_key (length ref) (D ! i ! k) (length (filled_positions F ! k)))
        \<and> (length ref \<le> 2 ^ 25 \<longrightarrow>
             (\<forall>k < length (names F).
                exact_key (length ref) (D ! i ! selected F D (length ref) i)
                  (length (filled_positions F ! selected F D (length ref) i))
                \<le> exact_key (length ref) (D ! i ! k) (length (filled_positions F ! k)))))
     \<and> (distinct (names X) \<longrightarrow>
          chunk_lines X F D (length ref) =
            map (\<lambda>i. Row (names X ! i) (names F ! selected F D (length ref) i)
                       (D ! i ! selected F D (length ref) i))
              [0..<length (names X)])
     \<and> chunk_lines (X\<lparr>filled_positions := fp\<rparr>) F D (length ref) = chunk_lines X F D (length ref)"
proof -
  let ?L = "length ref" and ?n = "length (names X)" and ?m = "length (names F)"
  let ?D = "map (\<lambda>i. map (distance_entry (snps X) (snps F) i) [0..<?m]) [0..<?n]"
  have shX: "shape (snps X) = (?n, ?L)" by (rule encoded_shape [OF encX])
  have shF: "shape (snps F) = (?m, ?L)" by (rule encoded_shape [OF encF])
  have cols: "snd (shape (snps X)) = snd (shape (snps F))" by (simp add: shX shF)
  have D: "calculate_distance_matrix (snps X) (snps F) (consensus X) = Inr ?D"
    by (simp add: calculate_distance_matrix_def shX shF)
  have fl: "length (filled_positions F) = ?m" by (rule encoded_filled_positions(1) [OF encF])
  from calculate_snp_matrix_Some [OF encF] have "names F \<noteq> []" by simp
  with fl have fne: "filled_positions F \<noteq> []" by auto
  have mk: "length (filled_positions F ! k) \<le> ?L" if "k < ?m" for k
    by (rule encoded_filled_positions(2) [OF encF that])
  have rows: "\<forall>i < ?n.
          selected F ?D ?L i < ?m
        \<and> (\<forall>k < ?m.
              float_key ?L (?D ! i ! selected F ?D ?L i) (length (filled_positions F ! selected F ?D ?L i))
              \<le> float_key ?L (?D ! i ! k) (length (filled_positions F ! k)))
        \<and> (?L \<le> 2 ^ 25 \<longrightarrow>
             (\<forall>k < ?m.
                exact_key ?L (?D ! i ! selected F ?D ?L i) (length (filled_positions F ! selected F ?D ?L i))
                \<le> exact_key ?L (?D ! i ! k) (length (filled_positions F ! k))))"
  proof (intro allI impI)
    fix i assume i: "i < ?n"
    have iD: "i < length ?D" using i by simp
    have li: "length (?D ! i) = length (filled_positions F)" using i by (simp add: fl)
    note sl = selected_least [OF L iD li fne]
    have s: "selected F ?D ?L i < ?m" using sl(1) by (simp only: fl)
    have fk: "float_key ?L (?D ! i ! selected F ?D ?L i) (length (filled_positions F ! selected F ?D ?L i))
              \<le> float_key ?L (?D ! i ! k) (length (filled_positions F ! k))" if "k < ?m" for k
      using sl(2) [of k] that by (simp only: fl)
    have bd: "0 \<le> ?D ! i ! k \<and> ?D ! i ! k \<le> int ?L" if "k < ?m" for k
      using that i distance_entry_nonneg [OF cols, of i k] distance_entry_le [OF cols, of i k]
      by (simp add: shX)
    have ek: "exact_key ?L (?D ! i ! selected F ?D ?L i) (length (filled_positions F ! selected F ?D ?L i))
                \<le> exact_key ?L (?D ! i ! k) (length (filled_positions F ! k))"
      if small: "?L \<le> 2 ^ 25" and k: "k < ?m" for k
    proof -
      from small have "int ?L \<le> int (2 ^ 25)" by (simp only: of_nat_le_iff)
      then have "int ?L \<le> 2 ^ 25" by simp
      with bd [OF s] bd [OF k]
      have b: "0 \<le> ?D ! i ! selected F ?D ?L i" "?D ! i ! selected F ?D ?L i \<le> 2 ^ 25"
        "0 \<le> ?D ! i ! k" "?D ! i ! k \<le> 2 ^ 25" by linarith+
      show ?thesis
        by (rule float_key_order [OF L small b(1,2) mk [OF s] b(3,4) mk [OF k] fk [OF k]])
    qed
    show "selected F ?D ?L i < ?m
        \<and> (\<forall>k < ?m.
              float_key ?L (?D ! i ! selected F ?D ?L i) (length (filled_positions F ! selected F ?D ?L i))
              \<le> float_key ?L (?D ! i ! k) (length (filled_positions F ! k)))
        \<and> (?L \<le> 2 ^ 25 \<longrightarrow>
             (\<forall>k < ?m.
                exact_key ?L (?D ! i ! selected F ?D ?L i) (length (filled_positions F ! selected F ?D ?L i))
                \<le> exact_key ?L (?D ! i ! k) (length (filled_positions F ! k))))"
      using s fk ek by blast
  qed
  have lines: "distinct (names X) \<longrightarrow>
          chunk_lines X F ?D ?L =
            map (\<lambda>i. Row (names X ! i) (names F ! selected F ?D ?L i) (?D ! i ! selected F ?D ?L i))
              [0..<?n]"
  proof
    assume "distinct (names X)"
    from chunk_lines_rows [of ?D X, OF _ this, of F ?L] show "chunk_lines X F ?D ?L =
            map (\<lambda>i. Row (names X ! i) (names F ! selected F ?D ?L i) (?D ! i ! selected F ?D ?L i))
              [0..<?n]"
      by simp
  qed
  have masks: "chunk_lines (X\<lparr>filled_positions := fp\<rparr>) F ?D ?L = chunk_lines X F ?D ?L"
    by (rule chunk_lines_context_masks)
  from D rows lines masks show ?thesis by blast
qed

theorem closest_match_minimises_witness:
  "\<exists>D. calculate_distance_matrix \<lparr>shape = (1, 4), entries = [(0, 3, 97)]\<rparr>
          \<lparr>shape = (2, 4), entries = []\<rparr> [97, 99, 103, 116] = Inr D
      \<and> chunk_lines \<lparr>snps = \<lparr>shape = (1, 4), entries = [(0, 3, 97)]\<rparr>,
                       consensus = [97, 99, 103, 116], names = [''x''], filled_positions = [[]]\<rparr>
            \<lparr>snps = \<lparr>shape = (2, 4), entries = []\<rparr>, consensus = [97, 99, 103, 116],
               names = [''f'', ''g''], filled_positions = [[], [3]]\<rparr> D 4
          = [Row ''x'' ''f'' 1]"
proof -
  let ?X = "\<lparr>snps = \<lparr>shape = (1, 4), entries = [(0, 3, 97)]\<rparr>,
               consensus = [97, 99, 103, 116], names = [''x''], filled_positions = [[]]\<rparr>"
  let ?F = "\<lparr>snps = \<lparr>shape = (2, 4), entries = []\<rparr>, consensus = [97, 99, 103, 116],
               names = [''f'', ''g''], filled_positions = [[], [3]]\<rparr>"
  have a: "calculate_snp_matrix [(''f'', ''acgt''), (''g'', ''acgn'')] (Some [97, 99, 103, 116]) 110 0 None
             = Inr (Some ?F, [])"
    by code_simp
  have b: "calculate_snp_matrix [(''x'', ''acga'')] (Some [97, 99, 103, 116]) 110 10000 None
             = Inr (Some ?X, [])"
    by code_simp
  have c: "0 < length [97, 99, 103, 116 :: int8]" by simp
  have d: "calculate_distance_matrix (snps ?X) (snps ?F) (consensus ?X) = Inr [[1, 1]]"
    by code_simp
  have e: "chunk_lines ?X ?F [[1, 1]] 4 = [Row ''x'' ''f'' 1]"
    by code_simp
  from closest_match_minimises [OF a b c] obtain D where
    "calculate_distance_matrix (snps ?X) (snps ?F) (consensus ?X) = Inr D" by blast
  with d e show ?thesis by simp
qed

text \<open>
  C7 as stated fails on the rounding of float64: for the distances \<open>2^26\<close> and \<open>2^26\<close>,
  the masked counts 1 and 0 and the alignment length \<open>2^27\<close>, the sum \<open>2^26 + 1/2^27\<close>
  rounds to \<open>2^26\<close>, both sums are equal as floats, and line 207 selects index 0,
  whose exact sum is the larger one.
\<close>

theorem closest_match_float_counterexample:
  "closest_match [[67108864, 67108864]] [1, 0] 134217728 = [0]
   \<and> exact_key 134217728 ([[67108864, 67108864]] ! 0 ! 1) ([1, 0] ! 1)
       < exact_key 134217728 ([[67108864, 67108864]] ! 0 ! 0) ([1, 0] ! 0)"
  by code_simp

section \<open>Chunks of the context set\<close>

text \<open>
  C5, at an input where it fails. The reference and the one focal sequence are 1600000
  times \<open>a\<close>, the two context sequences \<open>x\<close> and \<open>y\<close> are 1600000 times \<open>c\<close>.
  Read as one chunk of size 2, the second record needs 3200000 triples where the single
  growth step of line 88 has made room for 3000000, the slice write of line 96 raises,
  and no result line is written. Read in chunks of size 1, every call starts with fresh
  buffers and both context sequences get their line. Where no record has more than
  \<open>INITIALISATION_LENGTH / 2\<close> SNPs the two runs agree (\<open>chunking_invariant\<close>).
\<close>

theorem chunking_failing_input:
  "main (replicate 1600000 (CHR ''a'')) None [(''f'', replicate 1600000 (CHR ''a''))]
     [(''x'', replicate 1600000 (CHR ''c'')), (''y'', replicate 1600000 (CHR ''c''))] 2
     = ([Header], Some ValueError_broadcast)
   \<and> main (replicate 1600000 (CHR ''a'')) None [(''f'', replicate 1600000 (CHR ''a''))]
     [(''x'', replicate 1600000 (CHR ''c'')), (''y'', replicate 1600000 (CHR ''c''))] 1
     = ([Header, Row ''x'' ''f'' 1600000, Row ''y'' ''f'' 1600000], None)"
  using chunking_diverges [of 1600000 "''f''" "''x''" "''y''"] by simp

end
